theory Spec2Isabelle
  imports Complex_Main
begin

unbundle bit_operations_syntax

section \<open>Values of the host language\<close>

text \<open>
  The solvers of \<^verbatim>\<open>src/utils/tsp-algorithms.ts\<close> compute on JavaScript numbers. A number is
  modelled as a real, as \<^verbatim>\<open>Infinity\<close> (the sentinel of the solvers) or as \<^verbatim>\<open>NaN\<close>; rounding of
  the 64-bit representation and \<^verbatim>\<open>-Infinity\<close> are outside the model. Node indices are
  naturals, and the sentinel \<^verbatim>\<open>-1\<close> of an index variable is \<open>None\<close>.
\<close>

datatype jsnum = Fin real | PInf | NaN

text \<open>The comparison \<^verbatim>\<open>a < b\<close>: false as soon as one side is \<^verbatim>\<open>NaN\<close>.\<close>

fun jlt :: "jsnum \<Rightarrow> jsnum \<Rightarrow> bool" where
  "jlt (Fin a) (Fin b) = (a < b)"
| "jlt (Fin a) PInf = True"
| "jlt _ _ = False"

text \<open>The sum \<^verbatim>\<open>a + b\<close>.\<close>

fun jadd :: "jsnum \<Rightarrow> jsnum \<Rightarrow> jsnum" where
  "jadd (Fin a) (Fin b) = Fin (a + b)"
| "jadd NaN _ = NaN"
| "jadd _ NaN = NaN"
| "jadd _ _ = PInf"

datatype error = TypeError

type_synonym matrix = "jsnum list list"

text \<open>
  \<^verbatim>\<open>distanceMatrix[i]\<close> followed by a property read: reading a property of \<^verbatim>\<open>undefined\<close>
  throws, so a row index out of range is a \<open>TypeError\<close>. \<^verbatim>\<open>row[j]\<close> out of range is the value
  \<^verbatim>\<open>undefined\<close> (\<open>None\<close>), which \<open>num\<close> coerces to \<^verbatim>\<open>NaN\<close> where it is compared or added.
\<close>

definition row :: "matrix \<Rightarrow> nat \<Rightarrow> error + jsnum list" where
  "row m i = (if i < length m then Inr (m ! i) else Inl TypeError)"

definition col :: "jsnum list \<Rightarrow> nat \<Rightarrow> jsnum option" where
  "col r j = (if j < length r then Some (r ! j) else None)"

definition num :: "jsnum option \<Rightarrow> jsnum" where
  "num v = (case v of None \<Rightarrow> NaN | Some x \<Rightarrow> x)"

definition cell :: "matrix \<Rightarrow> nat \<Rightarrow> nat \<Rightarrow> error + jsnum option" where
  "cell m i j = (case row m i of Inl e \<Rightarrow> Inl e | Inr r \<Rightarrow> Inr (col r j))"

text \<open>
  What a solver takes from its host besides the matrix: the two readings of
  \<^verbatim>\<open>performance.now()\<close>, \<^verbatim>\<open>Number.prototype.toFixed(2)\<close> and the conversion of a number to a
  string in a template literal.
\<close>

record host =
  now0 :: real
  now1 :: real
  toFixed2 :: "jsnum \<Rightarrow> string"
  numStr :: "nat \<Rightarrow> string"

section \<open>The result model\<close>

record AlgorithmStep =
  description :: string
  currentNode :: "nat option"
  visitedNodes :: "nat list"
  currentPath :: "nat list"
  exploringEdges :: "(nat \<times> nat) list option"
  highlightEdge :: "(nat \<times> nat) option"
  cost :: "jsnum option"
  additionalInfo :: "string option"

record TSPResult =
  path :: "nat list"
  cost :: jsnum
  executionTime :: real
  steps :: "AlgorithmStep list"

section \<open>Greedy solver (nearest neighbour)\<close>

text \<open>
  \<^verbatim>\<open>new Array(n).fill(false)\<close> followed by \<^verbatim>\<open>visited[0] = true\<close>: the assignment extends
  the empty array of \<open>n = 0\<close>.
\<close>

definition init_visited :: "nat \<Rightarrow> bool list" where
  "init_visited n = (if n = 0 then [True] else (replicate n False)[0 := True])"

text \<open>The first inner loop of an iteration: the candidate edges to the unvisited nodes.\<close>

definition exploring :: "bool list \<Rightarrow> nat \<Rightarrow> nat \<Rightarrow> (nat \<times> nat) list" where
  "exploring visited current n = map (\<lambda>j. (current, j)) (filter (\<lambda>j. \<not> visited ! j) [0..<n])"

text \<open>
  The second inner loop, over \<open>j = 0, \<dots>, n - 1\<close>, on the pair \<open>(nearest, minDistance)\<close>.
  The matrix is read only for an unvisited \<open>j\<close> (the conjunction short-circuits).
\<close>

fun nearest_scan ::
  "matrix \<Rightarrow> bool list \<Rightarrow> nat \<Rightarrow> nat list \<Rightarrow> nat option \<times> jsnum \<Rightarrow> error + (nat option \<times> jsnum)" where
  "nearest_scan m visited current [] acc = Inr acc"
| "nearest_scan m visited current (j # js) (nearest, minDistance) =
     (if visited ! j then nearest_scan m visited current js (nearest, minDistance)
      else case cell m current j of
          Inl e \<Rightarrow> Inl e
        | Inr d \<Rightarrow>
            if jlt (num d) minDistance
            then nearest_scan m visited current js (Some j, num d)
            else nearest_scan m visited current js (nearest, minDistance))"

definition arrow :: string where
  "arrow = [CHR 0xE2, CHR 0x86, CHR 0x92]"

definition explore_step :: "host \<Rightarrow> nat list \<Rightarrow> bool list \<Rightarrow> nat \<Rightarrow> jsnum \<Rightarrow> AlgorithmStep" where
  "explore_step h pth visited n totalCost =
     \<lparr>description = ''At node '' @ numStr h (last pth) @ '', exploring unvisited neighbors'',
      currentNode = Some (last pth),
      visitedNodes = pth,
      currentPath = pth,
      exploringEdges = Some (exploring visited (last pth) n),
      highlightEdge = None,
      cost = Some totalCost,
      additionalInfo = Some (''Looking for the nearest unvisited node from '' @ numStr h (last pth))\<rparr>"

definition move_step :: "host \<Rightarrow> nat list \<Rightarrow> nat \<Rightarrow> nat \<Rightarrow> jsnum \<Rightarrow> jsnum \<Rightarrow> AlgorithmStep" where
  "move_step h pth current nearest minDistance totalCost =
     \<lparr>description = ''Move to nearest node '' @ numStr h nearest @ '' (distance: ''
        @ toFixed2 h minDistance @ '')'',
      currentNode = Some nearest,
      visitedNodes = pth,
      currentPath = pth,
      exploringEdges = None,
      highlightEdge = Some (current, nearest),
      cost = Some totalCost,
      additionalInfo = Some (''Added edge '' @ numStr h current @ '' '' @ arrow @ '' ''
        @ numStr h nearest @ '' with cost '' @ toFixed2 h minDistance)\<rparr>"

text \<open>
  The outer loop runs \<open>n - 1\<close> times and does not use its counter; the state is
  \<open>(path, visited, totalCost, steps)\<close>.
\<close>

type_synonym greedy_state = "nat list \<times> bool list \<times> jsnum \<times> AlgorithmStep list"

fun greedy_loop :: "host \<Rightarrow> matrix \<Rightarrow> nat \<Rightarrow> nat \<Rightarrow> greedy_state \<Rightarrow> error + greedy_state" where
  "greedy_loop h m n 0 st = Inr st"
| "greedy_loop h m n (Suc k) (pth, visited, totalCost, stps) =
     (let current = last pth;
          steps1 = stps @ [explore_step h pth visited n totalCost]
      in case nearest_scan m visited current [0..<n] (None, PInf) of
          Inl e \<Rightarrow> Inl e
        | Inr (None, minDistance) \<Rightarrow> greedy_loop h m n k (pth, visited, totalCost, steps1)
        | Inr (Some nearest, minDistance) \<Rightarrow>
            greedy_loop h m n k
              (pth @ [nearest], visited[nearest := True], jadd totalCost minDistance,
               steps1 @ [move_step h (pth @ [nearest]) current nearest minDistance
                          (jadd totalCost minDistance)]))"

definition start_step :: AlgorithmStep where
  "start_step =
     \<lparr>description = ''Start at node 0'',
      currentNode = Some 0,
      visitedNodes = [0],
      currentPath = [0],
      exploringEdges = None,
      highlightEdge = None,
      cost = Some (Fin 0),
      additionalInfo = Some ''Greedy algorithm always starts at node 0''\<rparr>"

definition return_step :: "host \<Rightarrow> nat list \<Rightarrow> jsnum \<Rightarrow> jsnum \<Rightarrow> AlgorithmStep" where
  "return_step h pth finalCost totalCost =
     \<lparr>description = ''Return to start node 0 (distance: '' @ toFixed2 h finalCost @ '')'',
      currentNode = Some 0,
      visitedNodes = pth @ [0],
      currentPath = pth @ [0],
      exploringEdges = None,
      highlightEdge = Some (last pth, 0),
      cost = Some totalCost,
      additionalInfo = Some (''Complete the tour. Total cost: '' @ toFixed2 h totalCost)\<rparr>"

text \<open>
  After the loop the closing edge \<^verbatim>\<open>distanceMatrix[path[path.length - 1]][path[0]]\<close> is read;
  \<^verbatim>\<open>finalCost.toFixed(2)\<close> throws when that entry is \<^verbatim>\<open>undefined\<close>.
\<close>

definition greedyTSP :: "host \<Rightarrow> matrix \<Rightarrow> error + TSPResult" where
  "greedyTSP h m =
     (let n = length m in
      case greedy_loop h m n (n - 1) ([0], init_visited n, Fin 0, [start_step]) of
          Inl e \<Rightarrow> Inl e
        | Inr (pth, visited, totalCost, stps) \<Rightarrow>
            (case cell m (last pth) (hd pth) of
                Inl e \<Rightarrow> Inl e
              | Inr None \<Rightarrow> Inl TypeError
              | Inr (Some finalCost) \<Rightarrow>
                  Inr \<lparr>path = pth,
                       cost = jadd totalCost finalCost,
                       executionTime = now1 h - now0 h,
                       steps = stps @ [return_step h pth finalCost (jadd totalCost finalCost)]\<rparr>))"

section \<open>Held-Karp solver (bitmask dynamic programming)\<close>

text \<open>
  The tables \<^verbatim>\<open>dp\<close> and \<^verbatim>\<open>parent\<close> have \<^verbatim>\<open>1 << n\<close> rows of \<open>n\<close> entries. After the guard
  \<open>n \<le> 15\<close>, so the 32-bit shift is \<open>push_bit n 1\<close> on naturals and the masks never wrap.
  Every index of the three loops is below \<open>n\<close> and every mask below \<^verbatim>\<open>1 << n\<close>, so the
  table and matrix rows read there exist.
\<close>

type_synonym tables = "jsnum list list \<times> nat option list list"

definition set2 :: "'a list list \<Rightarrow> nat \<Rightarrow> nat \<Rightarrow> 'a \<Rightarrow> 'a list list" where
  "set2 t i j v = t[i := (t ! i)[j := v]]"

definition guard_step :: "host \<Rightarrow> nat \<Rightarrow> AlgorithmStep" where
  "guard_step h n =
     \<lparr>description = ''Graph too large for Held-Karp'',
      currentNode = None,
      visitedNodes = [],
      currentPath = [],
      exploringEdges = None,
      highlightEdge = None,
      cost = None,
      additionalInfo = Some (''Held-Karp has O(n'' @ [CHR 0xC2, CHR 0xB2] @ '' 2''
        @ [CHR 0xE2, CHR 0x81, CHR 0xBF] @ '') complexity. For '' @ numStr h n
        @ '' nodes, this is too expensive.'')\<rparr>"

definition init_step :: AlgorithmStep where
  "init_step =
     \<lparr>description = ''Initialize: Calculate distances from node 0 to all other nodes'',
      currentNode = Some 0,
      visitedNodes = [0],
      currentPath = [0],
      exploringEdges = None,
      highlightEdge = None,
      cost = None,
      additionalInfo = Some ''Dynamic programming approach: build solutions for subsets''\<rparr>"

definition sweep_step :: AlgorithmStep where
  "sweep_step =
     \<lparr>description = ''Build solutions for all subsets of nodes'',
      currentNode = None,
      visitedNodes = [0],
      currentPath = [0],
      exploringEdges = None,
      highlightEdge = None,
      cost = None,
      additionalInfo =
        Some ''Computing optimal paths for each subset using dynamic programming''\<rparr>"

definition final_step :: "host \<Rightarrow> nat list \<Rightarrow> jsnum \<Rightarrow> AlgorithmStep" where
  "final_step h pth minCost =
     \<lparr>description = ''Reconstructed optimal path'',
      currentNode = None,
      visitedNodes = pth,
      currentPath = pth,
      exploringEdges = None,
      highlightEdge = None,
      cost = Some minCost,
      additionalInfo = Some (''Found optimal tour with cost '' @ toFixed2 h minCost)\<rparr>"

text \<open>The body of the innermost loop, for one \<open>next\<close>.\<close>

definition relax :: "matrix \<Rightarrow> nat \<Rightarrow> nat \<Rightarrow> tables \<Rightarrow> nat \<Rightarrow> tables" where
  "relax m msk lst t nxt =
     (case t of (dp, parent) \<Rightarrow>
        if msk AND push_bit nxt 1 \<noteq> 0 then (dp, parent)
        else let newMask = msk OR push_bit nxt 1;
                 newCost = jadd (dp ! msk ! lst) (num (col (m ! lst) nxt))
             in if jlt newCost (dp ! newMask ! nxt)
                then (set2 dp newMask nxt newCost, set2 parent newMask nxt (Some lst))
                else (dp, parent))"

text \<open>The body of the middle loop, for one \<open>last\<close>, with its two \<^verbatim>\<open>continue\<close>s.\<close>

definition extend :: "matrix \<Rightarrow> nat \<Rightarrow> nat \<Rightarrow> tables \<Rightarrow> nat \<Rightarrow> tables" where
  "extend m n msk t lst =
     (if msk AND push_bit lst 1 = 0 then t
      else if fst t ! msk ! lst = PInf then t
      else foldl (relax m msk lst) t [0..<n])"

definition sweep :: "matrix \<Rightarrow> nat \<Rightarrow> tables \<Rightarrow> tables" where
  "sweep m n t = foldl (\<lambda>t msk. foldl (extend m n msk) t [0..<n]) t [1..<push_bit n 1]"

text \<open>The search for the best ending node, on the pair \<open>(minCost, lastNode)\<close>.\<close>

definition best_end ::
  "matrix \<Rightarrow> jsnum list list \<Rightarrow> nat \<Rightarrow> jsnum \<times> nat option \<Rightarrow> nat \<Rightarrow> jsnum \<times> nat option" where
  "best_end m dp fullMask acc i =
     (case acc of (minCost, lastNode) \<Rightarrow>
        if i = 0 then (minCost, lastNode)
        else let c = jadd (dp ! fullMask ! i) (num (col (m ! i) 0))
             in if jlt c minCost then (c, Some i) else (minCost, lastNode))"

text \<open>
  The reconstruction follows \<^verbatim>\<open>parent\<close> until it reads \<^verbatim>\<open>-1\<close>. Nothing in the loop itself
  bounds it, so it is a partial function: \<open>None\<close> is a loop that does not return.
\<close>

partial_function (option) reconstruct ::
  "nat option list list \<Rightarrow> nat \<Rightarrow> nat option \<Rightarrow> nat list \<Rightarrow> nat list option" where
  "reconstruct parent msk cur pth =
     (case cur of
        None \<Rightarrow> Some pth
      | Some c \<Rightarrow> reconstruct parent (msk XOR push_bit c 1) (parent ! msk ! c) (pth @ [c]))"

declare reconstruct.simps [code]

text \<open>The two tables after \<^verbatim>\<open>dp[1][0] = 0\<close>, and the search for the best ending node.\<close>

definition init_tables :: "nat \<Rightarrow> tables" where
  "init_tables n =
     (set2 (replicate (push_bit n 1) (replicate n PInf)) 1 0 (Fin 0),
      replicate (push_bit n 1) (replicate n None))"

definition best_ending :: "matrix \<Rightarrow> nat \<Rightarrow> jsnum list list \<Rightarrow> jsnum \<times> nat option" where
  "best_ending m n dp = foldl (best_end m dp (push_bit n 1 - 1)) (PInf, None) [0..<n]"

text \<open>
  \<^verbatim>\<open>dp[1][0] = 0\<close> throws on the empty matrix, where \<^verbatim>\<open>dp\<close> has the single row \<^verbatim>\<open>dp[0]\<close>.
\<close>

definition heldKarpTSP :: "host \<Rightarrow> matrix \<Rightarrow> (error + TSPResult) option" where
  "heldKarpTSP h m =
     (let n = length m in
      if n > 15 then
        Some (Inr \<lparr>path = [], cost = PInf, executionTime = now1 h - now0 h,
                   steps = [guard_step h n]\<rparr>)
      else if push_bit n (1::nat) \<le> 1 then Some (Inl TypeError)
      else
        let t = sweep m n (init_tables n);
            fullMask = push_bit n 1 - 1;
            best = best_ending m n (fst t)
        in case reconstruct (snd t) fullMask (snd best) [] of
             None \<Rightarrow> None
           | Some p \<Rightarrow>
               Some (Inr \<lparr>path = rev p, cost = fst best, executionTime = now1 h - now0 h,
                          steps = [init_step, sweep_step, final_step h (rev p) (fst best)]\<rparr>))"

section \<open>Christofides solver and its helpers\<close>

subsection \<open>Prim's minimum spanning tree\<close>

text \<open>
  An edge \<^verbatim>\<open>{from, to, weight}\<close> is a triple. \<^verbatim>\<open>minFrom\<close> and \<^verbatim>\<open>minTo\<close> are assigned
  together, so the pair is \<open>None\<close> while both are \<^verbatim>\<open>-1\<close>. The row index \<open>j\<close> of the scan is a
  loop variable below \<open>n\<close>, so the row exists.
\<close>

type_synonym mst_edge = "nat \<times> nat \<times> jsnum"

definition prim_pick ::
  "matrix \<Rightarrow> bool list \<Rightarrow> nat \<Rightarrow> jsnum \<times> (nat \<times> nat) option \<Rightarrow> nat
   \<Rightarrow> jsnum \<times> (nat \<times> nat) option" where
  "prim_pick m visited j acc k =
     (if \<not> visited ! k \<and> jlt (num (col (m ! j) k)) (fst acc)
      then (num (col (m ! j) k), Some (j, k)) else acc)"

definition prim_row ::
  "matrix \<Rightarrow> bool list \<Rightarrow> nat \<Rightarrow> jsnum \<times> (nat \<times> nat) option \<Rightarrow> nat
   \<Rightarrow> jsnum \<times> (nat \<times> nat) option" where
  "prim_row m visited n acc j =
     (if \<not> visited ! j then acc else foldl (prim_pick m visited j) acc [0..<n])"

fun prim_loop ::
  "matrix \<Rightarrow> nat \<Rightarrow> nat \<Rightarrow> bool list \<times> mst_edge list \<Rightarrow> bool list \<times> mst_edge list" where
  "prim_loop m n 0 st = st"
| "prim_loop m n (Suc i) (visited, mst) =
     (case foldl (prim_row m visited n) (PInf, None) [0..<n] of
        (minWeight, None) \<Rightarrow> prim_loop m n i (visited, mst)
      | (minWeight, Some (minFrom, minTo)) \<Rightarrow>
          prim_loop m n i (visited[minTo := True], mst @ [(minFrom, minTo, minWeight)]))"

definition primMST :: "matrix \<Rightarrow> mst_edge list" where
  "primMST m = (let n = length m in snd (prim_loop m n (n - 1) (init_visited n, [])))"

subsection \<open>Greedy matching\<close>

text \<open>
  The loops run over positions of \<^verbatim>\<open>vertices\<close>; \<^verbatim>\<open>used\<close> is a set of vertices. The state of
  the inner loop is \<open>(minDist, bestMatch)\<close>, that of the outer loop \<open>(matching, used)\<close>.
\<close>

fun match_scan ::
  "matrix \<Rightarrow> nat list \<Rightarrow> nat set \<Rightarrow> nat \<Rightarrow> nat list \<Rightarrow> jsnum \<times> nat option
   \<Rightarrow> error + (jsnum \<times> nat option)" where
  "match_scan m vertices used i [] acc = Inr acc"
| "match_scan m vertices used i (j # js) (minDist, bestMatch) =
     (if vertices ! j \<in> used then match_scan m vertices used i js (minDist, bestMatch)
      else case cell m (vertices ! i) (vertices ! j) of
          Inl e \<Rightarrow> Inl e
        | Inr d \<Rightarrow>
            if jlt (num d) minDist
            then match_scan m vertices used i js (num d, Some j)
            else match_scan m vertices used i js (minDist, bestMatch))"

fun match_loop ::
  "matrix \<Rightarrow> nat list \<Rightarrow> nat list \<Rightarrow> (nat \<times> nat) list \<times> nat set
   \<Rightarrow> error + ((nat \<times> nat) list \<times> nat set)" where
  "match_loop m vertices [] st = Inr st"
| "match_loop m vertices (i # is) (matching, used) =
     (if vertices ! i \<in> used then match_loop m vertices is (matching, used)
      else case match_scan m vertices used i [i + 1..<length vertices] (PInf, None) of
          Inl e \<Rightarrow> Inl e
        | Inr (minDist, None) \<Rightarrow> match_loop m vertices is (matching, used)
        | Inr (minDist, Some bestMatch) \<Rightarrow>
            match_loop m vertices is
              (matching @ [(vertices ! i, vertices ! bestMatch)],
               insert (vertices ! bestMatch) (insert (vertices ! i) used)))"

definition minimumWeightMatching :: "nat list \<Rightarrow> matrix \<Rightarrow> error + (nat \<times> nat) list" where
  "minimumWeightMatching vertices m =
     (case match_loop m vertices [0..<length vertices] ([], {}) of
        Inl e \<Rightarrow> Inl e
      | Inr (matching, used) \<Rightarrow> Inr matching)"

subsection \<open>Eulerian circuit\<close>

text \<open>
  The state of the loop is \<open>(adjList, stack, circuit)\<close>; the top of the stack is the last
  element. \<^verbatim>\<open>adjList[v].length\<close> and \<^verbatim>\<open>adjList[u].indexOf(v)\<close> throw when the vertex has no
  adjacency list. \<open>euler_step\<close> is one iteration of the loop on a non-empty stack.
\<close>

type_synonym euler_state = "nat list list \<times> nat list \<times> nat list"

definition euler_step :: "euler_state \<Rightarrow> error + euler_state" where
  "euler_step s =
     (case s of (adjList, stack, circuit) \<Rightarrow>
        let v = last stack in
        if length adjList \<le> v then Inl TypeError
        else if adjList ! v \<noteq> [] then
          let u = last (adjList ! v);
              adj1 = adjList[v := butlast (adjList ! v)]
          in if length adj1 \<le> u then Inl TypeError
             else Inr (adj1[u := remove1 v (adj1 ! u)], stack @ [u], circuit)
        else Inr (adjList, butlast stack, circuit @ [v]))"

definition edge_total :: "nat list list \<Rightarrow> nat" where
  "edge_total adjList = sum_list (map length adjList)"

lemma edge_total_update:
  "i < length adj \<Longrightarrow> edge_total (adj[i := xs]) + length (adj ! i) = edge_total adj + length xs"
  unfolding edge_total_def
proof (induction adj arbitrary: i)
  case Nil
  then show ?case by simp
next
  case (Cons a adj)
  then show ?case by (cases i) auto
qed

lemma length_remove1_le: "length (remove1 x xs) \<le> length xs"
  by (induction xs) auto

lemma euler_step_decreases:
  assumes "stack \<noteq> []" and "euler_step (adjList, stack, circuit) = Inr (adj', stack', circuit')"
  shows "edge_total adj' < edge_total adjList \<and> stack' = stack @ [last (adjList ! last stack)]
           \<and> circuit' = circuit
         \<or> adj' = adjList \<and> stack' = butlast stack \<and> circuit' = circuit @ [last stack]"
proof (cases "adjList ! last stack = []")
  case True
  with assms show ?thesis
    by (auto simp: euler_step_def Let_def split: if_splits)
next
  case False
  define v where "v = last stack"
  define u where "u = last (adjList ! v)"
  define adj1 where "adj1 = adjList[v := butlast (adjList ! v)]"
  from assms False have v: "v < length adjList" and u: "u < length adj1"
    and res: "adj' = adj1[u := remove1 v (adj1 ! u)]" "stack' = stack @ [u]" "circuit' = circuit"
    by (auto simp: euler_step_def Let_def v_def u_def adj1_def split: if_splits)
  from False have "length (butlast (adjList ! v)) < length (adjList ! v)"
    by (simp add: v_def)
  with edge_total_update [OF v, of "butlast (adjList ! v)"]
  have "edge_total adj1 < edge_total adjList"
    by (simp add: adj1_def)
  moreover from edge_total_update [OF u, of "remove1 v (adj1 ! u)"]
    length_remove1_le [of v "adj1 ! u"]
  have "edge_total adj' \<le> edge_total adj1"
    by (simp add: res)
  ultimately show ?thesis
    using res by (simp add: u_def v_def)
qed

definition euler_measure :: "euler_state \<Rightarrow> nat \<times> nat" where
  "euler_measure s = (case s of (adjList, stack, circuit) \<Rightarrow> (edge_total adjList, length stack))"

function euler_loop :: "euler_state \<Rightarrow> error + nat list" where
  "euler_loop (adjList, stack, circuit) =
     (if stack = [] then Inr circuit
      else case euler_step (adjList, stack, circuit) of
          Inl e \<Rightarrow> Inl e
        | Inr s' \<Rightarrow> euler_loop s')"
  by pat_completeness auto
termination
proof (relation "inv_image (less_than <*lex*> less_than) euler_measure")
  show "wf (inv_image (less_than <*lex*> less_than) euler_measure)"
    by (intro wf_inv_image wf_lex_prod wf_less_than)
next
  fix adjList :: "nat list list" and stack circuit :: "nat list" and s' :: euler_state
  assume ne: "stack \<noteq> []" and st: "euler_step (adjList, stack, circuit) = Inr s'"
  obtain adj' stack' circuit' where s': "s' = (adj', stack', circuit')"
    by (cases s') auto
  from euler_step_decreases [OF ne st [unfolded s']] ne
  show "(s', adjList, stack, circuit) \<in> inv_image (less_than <*lex*> less_than) euler_measure"
    unfolding s' by (auto simp: euler_measure_def)
qed

definition findEulerianCircuit :: "nat list list \<Rightarrow> nat \<Rightarrow> error + nat list" where
  "findEulerianCircuit graph start =
     (case euler_loop (graph, [start], []) of
        Inl e \<Rightarrow> Inl e
      | Inr circuit \<Rightarrow> Inr (rev circuit))"

subsection \<open>The solver\<close>

text \<open>The degree count: \<^verbatim>\<open>degree[edge.from]++; degree[edge.to]++\<close> for every edge of the tree.\<close>

definition bump :: "nat list \<Rightarrow> nat \<Rightarrow> nat list" where
  "bump degree i = degree[i := degree ! i + 1]"

definition degrees :: "nat \<Rightarrow> mst_edge list \<Rightarrow> nat list" where
  "degrees n mst = foldl (\<lambda>degree (f, t, w). bump (bump degree f) t) (replicate n 0) mst"

definition oddVertices :: "nat \<Rightarrow> nat list \<Rightarrow> nat list" where
  "oddVertices n degree = filter (\<lambda>i. degree ! i mod 2 = 1) [0..<n]"

text \<open>
  The multigraph as adjacency lists: each edge is pushed at both ends. The ends of a tree
  edge are loop variables of the scan, those of a matching pair are odd vertices, so the
  lists written to exist (\<open>primMST_bounds\<close> and \<open>match_loop_bounds\<close> below).
\<close>

definition add_edge :: "nat list list \<Rightarrow> nat \<times> nat \<Rightarrow> nat list list" where
  "add_edge g e = (case e of (a, b) \<Rightarrow> let g1 = g[a := g ! a @ [b]] in g1[b := g1 ! b @ [a]])"

definition eulerianGraph :: "nat \<Rightarrow> (nat \<times> nat) list \<Rightarrow> (nat \<times> nat) list \<Rightarrow> nat list list" where
  "eulerianGraph n mstEdges matchingEdges =
     foldl add_edge (foldl add_edge (replicate n []) mstEdges) matchingEdges"

text \<open>Shortcutting: the state is \<open>(visited, path)\<close>.\<close>

fun shortcut :: "nat list \<Rightarrow> nat set \<times> nat list \<Rightarrow> nat list" where
  "shortcut [] (visited, pth) = pth"
| "shortcut (vertex # vs) (visited, pth) =
     (if vertex \<in> visited then shortcut vs (visited, pth)
      else shortcut vs (insert vertex visited, pth @ [vertex]))"

text \<open>The cost loop over \<open>i = 0, \<dots>, path.length - 2\<close>.\<close>

fun cost_loop :: "matrix \<Rightarrow> nat list \<Rightarrow> nat list \<Rightarrow> jsnum \<Rightarrow> error + jsnum" where
  "cost_loop m pth [] totalCost = Inr totalCost"
| "cost_loop m pth (i # is) totalCost =
     (case cell m (pth ! i) (pth ! (i + 1)) of
        Inl e \<Rightarrow> Inl e
      | Inr d \<Rightarrow> cost_loop m pth is (jadd totalCost (num d)))"

fun join :: "string \<Rightarrow> string list \<Rightarrow> string" where
  "join sep [] = []"
| "join sep [x] = x"
| "join sep (x # y # ys) = x @ sep @ join sep (y # ys)"

definition blank_step :: AlgorithmStep where
  "blank_step =
     \<lparr>description = [], currentNode = None, visitedNodes = [], currentPath = [],
      exploringEdges = None, highlightEdge = None, cost = None, additionalInfo = None\<rparr>"

definition tree_step :: AlgorithmStep where
  "tree_step =
     blank_step
       \<lparr>description := ''Step 1: Find Minimum Spanning Tree (MST)'',
        additionalInfo := Some (''Using Prim'' @ [CHR 0x27] @ ''s algorithm to find MST'')\<rparr>"

definition christofides_steps ::
  "host \<Rightarrow> (nat \<times> nat) list \<Rightarrow> nat list \<Rightarrow> (nat \<times> nat) list \<Rightarrow> nat list \<Rightarrow> nat list
   \<Rightarrow> jsnum \<Rightarrow> AlgorithmStep list" where
  "christofides_steps h mstEdges oddVs matchingEdges circuit pth totalCost =
     [tree_step,
      blank_step
        \<lparr>description := ''MST computed'',
         exploringEdges := Some mstEdges,
         additionalInfo := Some (''MST has '' @ numStr h (length mstEdges) @ '' edges'')\<rparr>,
      blank_step
        \<lparr>description := ''Step 2: Find vertices with odd degree'',
         visitedNodes := oddVs,
         additionalInfo := Some (''Found '' @ numStr h (length oddVs)
           @ '' vertices with odd degree: ['' @ join '', '' (map (numStr h) oddVs) @ '']'')\<rparr>,
      blank_step
        \<lparr>description := ''Step 3: Find minimum weight perfect matching'',
         visitedNodes := oddVs,
         exploringEdges := Some matchingEdges,
         additionalInfo := Some (''Created '' @ numStr h (length matchingEdges)
           @ '' matching pairs'')\<rparr>,
      blank_step
        \<lparr>description := ''Step 4: Combine MST and matching to form Eulerian graph'',
         exploringEdges := Some (mstEdges @ matchingEdges),
         additionalInfo := Some ''All vertices now have even degree''\<rparr>,
      blank_step
        \<lparr>description := ''Step 5: Find Eulerian circuit'',
         visitedNodes := circuit,
         currentPath := circuit,
         additionalInfo := Some (''Eulerian circuit visits '' @ numStr h (length circuit)
           @ '' vertices (with repetitions)'')\<rparr>,
      blank_step
        \<lparr>description := ''Step 6: Create Hamiltonian circuit by removing duplicates'',
         visitedNodes := pth,
         currentPath := pth,
         AlgorithmStep.cost := Some totalCost,
         additionalInfo := Some (''Final tour with '' @ numStr h (length pth)
           @ '' unique vertices. Total cost: '' @ toFixed2 h totalCost)\<rparr>]"

text \<open>
  The stages in the order of the source. The circuit holds the start vertex at least, so
  the path is never empty; the closing entry may be \<^verbatim>\<open>undefined\<close>, which the sum turns into
  \<^verbatim>\<open>NaN\<close>.
\<close>

definition christofidesTSP :: "host \<Rightarrow> matrix \<Rightarrow> error + TSPResult" where
  "christofidesTSP h m =
     (let n = length m;
          mst = primMST m;
          mstEdges = map (\<lambda>(f, t, w). (f, t)) mst;
          oddVs = oddVertices n (degrees n mst)
      in case minimumWeightMatching oddVs m of
          Inl e \<Rightarrow> Inl e
        | Inr matching \<Rightarrow>
            (case findEulerianCircuit (eulerianGraph n mstEdges matching) 0 of
                Inl e \<Rightarrow> Inl e
              | Inr circuit \<Rightarrow>
                  let pth = shortcut circuit ({}, []) in
                  (case cost_loop m pth [0..<length pth - 1] (Fin 0) of
                      Inl e \<Rightarrow> Inl e
                    | Inr c \<Rightarrow>
                        (case cell m (last pth) (hd pth) of
                            Inl e \<Rightarrow> Inl e
                          | Inr d \<Rightarrow>
                              Inr \<lparr>path = pth,
                                   cost = jadd c (num d),
                                   executionTime = now1 h - now0 h,
                                   steps = christofides_steps h mstEdges oddVs matching circuit
                                             pth (jadd c (num d))\<rparr>))))"

section \<open>Valid inputs\<close>

text \<open>
  The input contract: a square matrix of dimension \<open>n \<ge> 1\<close> with non-negative real entries
  (\<open>square_nonneg\<close>), symmetric, with a zero diagonal.
\<close>

definition nonneg :: "jsnum \<Rightarrow> bool" where
  "nonneg x = (case x of Fin r \<Rightarrow> 0 \<le> r | _ \<Rightarrow> False)"

definition square_nonneg :: "matrix \<Rightarrow> bool" where
  "square_nonneg m \<longleftrightarrow>
     1 \<le> length m \<and> list_all (\<lambda>r. length r = length m \<and> list_all nonneg r) m"

definition valid_matrix :: "matrix \<Rightarrow> bool" where
  "valid_matrix m \<longleftrightarrow>
     square_nonneg m
     \<and> list_all (\<lambda>i. m ! i ! i = Fin 0 \<and> list_all (\<lambda>j. m ! i ! j = m ! j ! i) [0..<length m])
         [0..<length m]"

text \<open>A host and a valid matrix of four nodes, for the instances below.\<close>

definition host0 :: host where
  "host0 = \<lparr>now0 = 0, now1 = 1, toFixed2 = (\<lambda>x. []), numStr = (\<lambda>n. [])\<rparr>"

definition matrix4 :: matrix where
  "matrix4 = [[Fin 0, Fin 1, Fin 2, Fin 5],
              [Fin 1, Fin 0, Fin 1, Fin 1],
              [Fin 2, Fin 1, Fin 0, Fin 7],
              [Fin 5, Fin 1, Fin 7, Fin 0]]"

text \<open>The valid matrix of sixteen nodes at distance 0.\<close>

definition zero16 :: matrix where
  "zero16 = replicate 16 (replicate 16 (Fin 0))"

section \<open>What the specification says of a tour\<close>

text \<open>
  The cost of a tour recomputed from the matrix: the entries between consecutive nodes of
  the path, summed from the left, plus the closing edge from the last node back to node 0.
\<close>

definition path_sum :: "matrix \<Rightarrow> nat list \<Rightarrow> jsnum" where
  "path_sum m p = foldl jadd (Fin 0) (map (\<lambda>i. m ! (p ! i) ! (p ! (i + 1))) [0..<length p - 1])"

definition tour_cost :: "matrix \<Rightarrow> nat list \<Rightarrow> jsnum" where
  "tour_cost m p = jadd (path_sum m p) (m ! last p ! 0)"

text \<open>
  The nearest-neighbour rule at position \<open>k\<close> of a path: the next node is unvisited, no
  unvisited node is nearer to the current one, and every unvisited node of lower index is
  strictly farther.
\<close>

definition nearest_choice :: "matrix \<Rightarrow> nat list \<Rightarrow> nat \<Rightarrow> bool" where
  "nearest_choice m p k \<longleftrightarrow>
     (let current = p ! k;
          chosen = p ! (k + 1);
          unvisited = filter (\<lambda>j. j \<notin> set (take (k + 1) p)) [0..<length m]
      in chosen \<in> set unvisited
         \<and> list_all (\<lambda>j. \<not> jlt (m ! current ! j) (m ! current ! chosen)
                        \<and> (j < chosen \<longrightarrow> jlt (m ! current ! chosen) (m ! current ! j)))
             unvisited)"

text \<open>The array \<^verbatim>\<open>visited\<close> of the greedy solver once the nodes of \<open>p\<close> are marked.\<close>

definition visited_of :: "nat \<Rightarrow> nat list \<Rightarrow> bool list" where
  "visited_of n p = map (\<lambda>j. j \<in> set p) [0..<n]"

section \<open>Matrices whose entries are read in range\<close>

definition finite_square :: "matrix \<Rightarrow> bool" where
  "finite_square m \<longleftrightarrow>
     (\<forall>i<length m. length (m ! i) = length m \<and> (\<forall>j<length m. \<exists>x. m ! i ! j = Fin x))"

lemma nonneg_Fin: "nonneg x \<Longrightarrow> \<exists>r\<ge>0. x = Fin r"
  by (cases x) (auto simp: nonneg_def)

lemma square_nonneg_finite_square: "square_nonneg m \<Longrightarrow> finite_square m"
  unfolding finite_square_def square_nonneg_def list_all_length
  by (metis nonneg_Fin)

lemma valid_square_nonneg: "valid_matrix m \<Longrightarrow> square_nonneg m"
  by (simp add: valid_matrix_def)

lemma valid_finite_square: "valid_matrix m \<Longrightarrow> finite_square m"
  by (simp add: valid_square_nonneg square_nonneg_finite_square)

lemma valid_matrix_entry:
  assumes "valid_matrix m" "i < length m" "j < length m"
  shows "\<exists>x\<ge>0. m ! i ! j = Fin x" and "m ! i ! j = m ! j ! i" and "m ! i ! i = Fin 0"
proof -
  from assms have "nonneg (m ! i ! j)"
    by (auto simp: valid_matrix_def square_nonneg_def list_all_length)
  then show "\<exists>x\<ge>0. m ! i ! j = Fin x"
    by (rule nonneg_Fin)
  from assms show "m ! i ! j = m ! j ! i" "m ! i ! i = Fin 0"
    by (auto simp: valid_matrix_def list_all_iff)
qed

section \<open>The greedy solver on a valid matrix\<close>

lemma cell_in_range:
  "i < length m \<Longrightarrow> j < length (m ! i) \<Longrightarrow> cell m i j = Inr (Some (m ! i ! j))"
  by (simp add: cell_def row_def col_def)

lemma finite_square_cell:
  "finite_square m \<Longrightarrow> i < length m \<Longrightarrow> j < length m \<Longrightarrow> cell m i j = Inr (Some (m ! i ! j))"
  by (simp add: cell_in_range finite_square_def)

text \<open>The state of the scan after the candidates below \<open>a\<close>.\<close>

definition scan_inv :: "matrix \<Rightarrow> bool list \<Rightarrow> nat \<Rightarrow> nat \<Rightarrow> nat option \<times> jsnum \<Rightarrow> bool" where
  "scan_inv m visited current a acc \<longleftrightarrow>
     (case fst acc of
        None \<Rightarrow> snd acc = PInf \<and> (\<forall>j<a. visited ! j)
      | Some b \<Rightarrow> b < a \<and> \<not> visited ! b \<and> snd acc = m ! current ! b
          \<and> (\<forall>j<a. \<not> visited ! j \<longrightarrow>
                \<not> jlt (m ! current ! j) (snd acc) \<and> (j < b \<longrightarrow> jlt (snd acc) (m ! current ! j))))"

lemma jlt_below:
  "jlt (Fin x) md \<Longrightarrow> \<not> jlt (Fin y) md \<Longrightarrow> x < y"
  by (cases md) auto

lemma scan_inv_step:
  assumes inv: "scan_inv m visited current a (nr, md)"
    and fin: "\<forall>j\<le>a. \<exists>x. m ! current ! j = Fin x"
    and x: "m ! current ! a = Fin x"
  shows "visited ! a \<Longrightarrow> scan_inv m visited current (Suc a) (nr, md)"
    and "\<not> visited ! a \<Longrightarrow> jlt (Fin x) md \<Longrightarrow> scan_inv m visited current (Suc a) (Some a, Fin x)"
    and "\<not> visited ! a \<Longrightarrow> \<not> jlt (Fin x) md \<Longrightarrow> scan_inv m visited current (Suc a) (nr, md)"
proof -
  show "visited ! a \<Longrightarrow> scan_inv m visited current (Suc a) (nr, md)"
    using inv by (auto simp: scan_inv_def less_Suc_eq split: option.splits)
  show "scan_inv m visited current (Suc a) (Some a, Fin x)"
    if nv: "\<not> visited ! a" and lt: "jlt (Fin x) md"
  proof -
    have "\<not> jlt (m ! current ! j) (Fin x) \<and> (j < a \<longrightarrow> jlt (Fin x) (m ! current ! j))"
      if j: "j < Suc a" "\<not> visited ! j" for j
    proof (cases "j = a")
      case True
      then show ?thesis by (simp add: x)
    next
      case False
      with j have ja: "j < a" by simp
      from fin ja obtain y where y: "m ! current ! j = Fin y" by (meson less_imp_le)
      from inv ja j(2) lt have "\<not> jlt (Fin y) md"
        by (cases nr) (auto simp: scan_inv_def y)
      with lt have "x < y" by (rule jlt_below)
      then show ?thesis by (simp add: y)
    qed
    with nv show ?thesis
      by (simp add: scan_inv_def x)
  qed
  show "scan_inv m visited current (Suc a) (nr, md)"
    if nv: "\<not> visited ! a" and nlt: "\<not> jlt (Fin x) md"
  proof (cases nr)
    case None
    with inv nlt show ?thesis by (simp add: scan_inv_def)
  next
    case (Some b)
    with inv nlt show ?thesis
      by (auto simp: scan_inv_def less_Suc_eq x)
  qed
qed

lemma nearest_scan_inv:
  assumes cur: "current < length m" and len: "n \<le> length (m ! current)"
    and fin: "\<forall>j<n. \<exists>x. m ! current ! j = Fin x"
  shows "a \<le> n \<Longrightarrow> scan_inv m visited current a acc \<Longrightarrow>
         \<exists>acc'. nearest_scan m visited current [a..<n] acc = Inr acc'
                \<and> scan_inv m visited current n acc'"
proof (induction "n - a" arbitrary: a acc)
  case 0
  then show ?case by simp
next
  case (Suc d)
  then have a: "a < n" by simp
  obtain nr md where acc: "acc = (nr, md)" by (cases acc)
  from fin a obtain x where x: "m ! current ! a = Fin x" by blast
  from fin a have fin': "\<forall>j\<le>a. \<exists>x. m ! current ! j = Fin x" by auto
  from a cur len have c: "cell m current a = Inr (Some (m ! current ! a))"
    by (simp add: cell_in_range)
  note st = scan_inv_step [OF Suc.prems(2) [unfolded acc] fin' x]
  have d: "d = n - Suc a" using Suc.hyps(2) by simp
  have up: "[a..<n] = a # [Suc a..<n]" using a by (simp add: upt_conv_Cons)
  show ?case
  proof (cases "visited ! a")
    case True
    from Suc.hyps(1) [OF d _ st(1) [OF True]] a True show ?thesis
      by (simp add: up acc)
  next
    case nv: False
    show ?thesis
    proof (cases "jlt (Fin x) md")
      case True
      from Suc.hyps(1) [OF d _ st(2) [OF nv True]] a nv True show ?thesis
        by (simp add: up acc c x num_def)
    next
      case False
      from Suc.hyps(1) [OF d _ st(3) [OF nv False]] a nv False show ?thesis
        by (simp add: up acc c x num_def)
    qed
  qed
qed


lemma path_sum_snoc:
  assumes "p \<noteq> []"
  shows "path_sum m (p @ [b]) = jadd (path_sum m p) (m ! last p ! b)"
proof -
  from assms obtain l where l: "length p = Suc l" by (cases p) auto
  have eq: "map (\<lambda>i. m ! ((p @ [b]) ! i) ! ((p @ [b]) ! (i + 1))) [0..<l]
        = map (\<lambda>i. m ! (p ! i) ! (p ! (i + 1))) [0..<l]"
    by (rule map_cong) (auto simp: nth_append l)
  have "(p @ [b]) ! l = last p" "(p @ [b]) ! Suc l = b"
    using assms l by (auto simp: nth_append last_conv_nth)
  then have "path_sum m (p @ [b])
      = jadd (foldl jadd (Fin 0) (map (\<lambda>i. m ! ((p @ [b]) ! i) ! ((p @ [b]) ! (i + 1))) [0..<l]))
          (m ! last p ! b)"
    by (simp add: path_sum_def l)
  also have "\<dots> = jadd (path_sum m p) (m ! last p ! b)"
    unfolding eq by (simp add: path_sum_def l)
  finally show ?thesis .
qed

lemma nearest_choice_append:
  "k + 1 < length p \<Longrightarrow> nearest_choice m (p @ [b]) k = nearest_choice m p k"
  by (simp add: nearest_choice_def nth_append)

definition greedy_inv :: "matrix \<Rightarrow> greedy_state \<Rightarrow> bool" where
  "greedy_inv m st \<longleftrightarrow>
     (case st of (p, visited, totalCost, stps) \<Rightarrow>
        p \<noteq> [] \<and> hd p = 0 \<and> distinct p \<and> set p \<subseteq> {..<length m}
        \<and> length visited = length m \<and> (\<forall>j<length m. visited ! j \<longleftrightarrow> j \<in> set p)
        \<and> totalCost = path_sum m p
        \<and> (\<forall>k. k + 1 < length p \<longrightarrow> nearest_choice m p k)
        \<and> stps \<noteq> [] \<and> hd stps = start_step)"

lemma greedy_inv_init:
  "1 \<le> length m \<Longrightarrow> greedy_inv m ([0], init_visited (length m), Fin 0, [start_step])"
  by (auto simp: greedy_inv_def init_visited_def path_sum_def nth_list_update)

lemma unvisited_exists:
  assumes "distinct p" "set p \<subseteq> {..<n}" "length p < n"
  shows "\<exists>j<n. j \<notin> set p"
proof (rule ccontr)
  assume "\<not> (\<exists>j<n. j \<notin> set p)"
  then have "{..<n} \<subseteq> set p" by auto
  then have "card {..<n} \<le> card (set p)" by (intro card_mono) auto
  with assms show False by (simp add: distinct_card)
qed

lemma greedy_step:
  assumes fs: "finite_square m"
    and inv: "greedy_inv m (p, v, t, s)"
    and len: "length p < length m"
  shows "\<exists>b md. nearest_scan m v (last p) [0..<length m] (None, PInf) = Inr (Some b, md)
           \<and> (\<forall>s1 s2. greedy_inv m (p @ [b], v[b := True], jadd t md, s @ [s1, s2]))"
proof -
  let ?n = "length m"
  from inv have p: "p \<noteq> []" "hd p = 0" "distinct p" "set p \<subseteq> {..<?n}"
    and v: "length v = ?n" "\<forall>j<?n. v ! j \<longleftrightarrow> j \<in> set p"
    and t: "t = path_sum m p" and ch: "\<forall>k. k + 1 < length p \<longrightarrow> nearest_choice m p k"
    and s: "s \<noteq> []" "hd s = start_step"
    by (auto simp: greedy_inv_def)
  from p have cur: "last p < ?n" using last_in_set by blast
  with fs have row: "?n \<le> length (m ! last p)" "\<forall>j<?n. \<exists>x. m ! last p ! j = Fin x"
    by (auto simp: finite_square_def)
  have "scan_inv m v (last p) 0 (None, PInf)"
    by (simp add: scan_inv_def)
  from nearest_scan_inv [OF cur row, of 0 v, OF _ this]
  obtain acc where acc: "nearest_scan m v (last p) [0..<?n] (None, PInf) = Inr acc"
    and fin: "scan_inv m v (last p) ?n acc" by auto
  from unvisited_exists [OF p(3,4) len] v(2) have "\<not> (\<forall>j<?n. v ! j)" by auto
  with fin obtain b where b: "fst acc = Some b"
    by (cases "fst acc") (auto simp: scan_inv_def)
  with fin have bn: "b < ?n" and nb: "\<not> v ! b" and md: "snd acc = m ! last p ! b"
    and best: "\<forall>j<?n. \<not> v ! j \<longrightarrow>
        \<not> jlt (m ! last p ! j) (snd acc) \<and> (j < b \<longrightarrow> jlt (snd acc) (m ! last p ! j))"
    by (auto simp: scan_inv_def)
  from nb bn v(2) have bp: "b \<notin> set p" by auto
  have new: "nearest_choice m (p @ [b]) k" if k: "k + 1 < length (p @ [b])" for k
  proof (cases "k + 1 < length p")
    case True
    with ch show ?thesis by (simp add: nearest_choice_append)
  next
    case False
    with k have kl: "k + 1 = length p" by simp
    then have "(p @ [b]) ! k = last p" "(p @ [b]) ! (k + 1) = b" "take (k + 1) (p @ [b]) = p"
      using p(1) by (auto simp: nth_append last_conv_nth diff_Suc_eq_diff_pred [symmetric] dest: arg_cong [where f = "\<lambda>n. n - 1"])
    with best v(2) bn bp md show ?thesis
      by (auto simp: nearest_choice_def list_all_iff)
  qed
  have "greedy_inv m (p @ [b], v[b := True], jadd t (snd acc), s @ [s1, s2])" for s1 s2
    unfolding greedy_inv_def
    using p v s bn bp new
    by (auto simp: t md path_sum_snoc nth_list_update)
  with acc b show ?thesis
    by (cases acc) auto
qed

lemma greedy_loop_inv:
  assumes fs: "finite_square m"
  shows "greedy_inv m (p, v, t, s) \<Longrightarrow> length p + k = length m \<Longrightarrow>
         \<exists>p' v' t' s'. greedy_loop h m (length m) k (p, v, t, s) = Inr (p', v', t', s')
            \<and> greedy_inv m (p', v', t', s') \<and> length p' = length m
            \<and> length s' = length s + 2 * k"
proof (induction k arbitrary: p v t s)
  case 0
  then show ?case by simp
next
  case (Suc k)
  let ?s1 = "explore_step h p v (length m) t"
  from Suc.prems have len: "length p < length m" by simp
  from greedy_step [OF fs Suc.prems(1) len] obtain b md
    where scan: "nearest_scan m v (last p) [0..<length m] (None, PInf) = Inr (Some b, md)"
      and inv: "\<And>s1 s2. greedy_inv m (p @ [b], v[b := True], jadd t md, s @ [s1, s2])"
    by blast
  from Suc.prems have "length (p @ [b]) + k = length m" by simp
  from Suc.IH [OF inv this] scan show ?case
    by (simp add: Let_def)
qed

lemma greedy_loop_scans:
  assumes fs: "finite_square m"
  shows "greedy_inv m (p, v, t, s) \<Longrightarrow> length p + k = length m \<Longrightarrow>
         greedy_loop h m (length m) k (p, v, t, s) = Inr (p', v', t', s') \<Longrightarrow>
         take (length p) p' = p
         \<and> (\<forall>i. length p \<le> i + 1 \<and> i + 1 < length m \<longrightarrow>
               (\<exists>d. nearest_scan m (visited_of (length m) (take (i + 1) p')) (p' ! i) [0..<length m]
                      (None, PInf) = Inr (Some (p' ! (i + 1)), d)))"
proof (induction k arbitrary: p v t s)
  case 0
  then show ?case by auto
next
  case (Suc k)
  from Suc.prems have len: "length p < length m" by simp
  from greedy_step [OF fs Suc.prems(1) len] obtain b md
    where scan: "nearest_scan m v (last p) [0..<length m] (None, PInf) = Inr (Some b, md)"
      and inv: "\<And>s1 s2. greedy_inv m (p @ [b], v[b := True], jadd t md, s @ [s1, s2])"
    by blast
  from Suc.prems(1) have p: "p \<noteq> []" and v: "length v = length m"
    "\<forall>j<length m. v ! j \<longleftrightarrow> j \<in> set p"
    by (auto simp: greedy_inv_def)
  have vis: "visited_of (length m) p = v"
    by (rule nth_equalityI) (use v in \<open>auto simp: visited_of_def\<close>)
  from Suc.prems have l: "length (p @ [b]) + k = length m" by simp
  from Suc.prems(3) scan have
    "greedy_loop h m (length m) k (p @ [b], v[b := True], jadd t md,
        s @ [explore_step h p v (length m) t,
             move_step h (p @ [b]) (last p) b md (jadd t md)]) = Inr (p', v', t', s')"
    by (simp add: Let_def)
  from Suc.IH [OF inv l this]
  have tk: "take (Suc (length p)) p' = p @ [b]"
    and rest: "\<forall>i. Suc (length p) \<le> i + 1 \<and> i + 1 < length m \<longrightarrow>
               (\<exists>d. nearest_scan m (visited_of (length m) (take (i + 1) p')) (p' ! i) [0..<length m]
                      (None, PInf) = Inr (Some (p' ! (i + 1)), d))"
    by auto
  from tk have tp: "take (length p) p' = p"
    by (metis append_eq_conv_conj take_take min.absorb1 le_add2 plus_1_eq_Suc le_SucI order_refl)
  from tk have lp: "length p < length p'"
    by (metis length_take length_append_singleton lessI min.strict_boundedE)
  from arg_cong [OF tk, of "\<lambda>xs. xs ! length p"] lp have b: "p' ! length p = b"
    by simp
  from arg_cong [OF tk, of "\<lambda>xs. xs ! (length p - 1)"] lp p
  have lst: "p' ! (length p - 1) = last p"
    by (simp add: nth_append last_conv_nth)
  have "\<exists>d. nearest_scan m (visited_of (length m) (take (i + 1) p')) (p' ! i) [0..<length m]
               (None, PInf) = Inr (Some (p' ! (i + 1)), d)"
    if i: "length p \<le> i + 1" "i + 1 < length m" for i
  proof (cases "i + 1 = length p")
    case True
    then have "i = length p - 1" by simp
    with True tp vis b lst scan show ?thesis by auto
  next
    case False
    with i rest show ?thesis by auto
  qed
  with tp show ?case by blast
qed

lemma greedy_result:
  assumes fs: "finite_square m" and n: "1 \<le> length m"
  shows "\<exists>p v s. greedy_loop h m (length m) (length m - 1)
                   ([0], init_visited (length m), Fin 0, [start_step]) = Inr (p, v, path_sum m p, s)
           \<and> greedy_inv m (p, v, path_sum m p, s) \<and> length p = length m
           \<and> length s = 2 * length m - 1
           \<and> greedyTSP h m = Inr \<lparr>path = p, cost = tour_cost m p,
                 executionTime = now1 h - now0 h,
                 steps = s @ [return_step h p (m ! last p ! 0) (tour_cost m p)]\<rparr>"
proof -
  from n have l: "length [0::nat] + (length m - 1) = length m" by simp
  from greedy_loop_inv [OF fs greedy_inv_init [OF n] l, of h]
  obtain p v t s where
    loop: "greedy_loop h m (length m) (length m - 1)
             ([0], init_visited (length m), Fin 0, [start_step]) = Inr (p, v, t, s)"
    and inv: "greedy_inv m (p, v, t, s)" and len: "length p = length m"
    and ls: "length s = length [start_step] + 2 * (length m - 1)"
    by blast
  from inv have t: "t = path_sum m p" and p: "p \<noteq> []" "hd p = 0" "set p \<subseteq> {..<length m}"
    by (auto simp: greedy_inv_def)
  from p have "last p < length m" using last_in_set by blast
  with fs n have c: "cell m (last p) 0 = Inr (Some (m ! last p ! 0))"
    by (intro finite_square_cell) auto
  from loop c p have "greedyTSP h m = Inr \<lparr>path = p, cost = tour_cost m p,
                 executionTime = now1 h - now0 h,
                 steps = s @ [return_step h p (m ! last p ! 0) (tour_cost m p)]\<rparr>"
    by (simp add: greedyTSP_def Let_def tour_cost_def t)
  with loop inv len ls n show ?thesis
    unfolding t by auto
qed

section \<open>The host does not influence path and cost\<close>

text \<open>The state of the greedy loop without its step log, and the path and cost of a result.\<close>

definition greedy_core :: "greedy_state \<Rightarrow> nat list \<times> bool list \<times> jsnum" where
  "greedy_core st = (case st of (p, visited, totalCost, stps) \<Rightarrow> (p, visited, totalCost))"

lemma greedy_loop_host:
  "map_sum id greedy_core (greedy_loop h m n k (p, v, t, s))
   = map_sum id greedy_core (greedy_loop h' m n k (p, v, t, s'))"
proof (induction k arbitrary: p v t s s')
  case 0
  then show ?case by (simp add: greedy_core_def)
next
  case (Suc k)
  show ?case
  proof (cases "nearest_scan m v (last p) [0..<n] (None, PInf)")
    case (Inl e)
    then show ?thesis by (simp add: Let_def)
  next
    case (Inr acc)
    obtain nr md where acc: "acc = (nr, md)" by (cases acc)
    show ?thesis
    proof (cases nr)
      case None
      with Inr acc Suc.IH show ?thesis by (simp add: Let_def)
    next
      case (Some b)
      with Inr acc Suc.IH show ?thesis by (simp add: Let_def)
    qed
  qed
qed

definition outcome :: "TSPResult \<Rightarrow> nat list \<times> jsnum" where
  "outcome r = (path r, TSPResult.cost r)"

lemma greedyTSP_host:
  "map_sum id outcome (greedyTSP h m) = map_sum id outcome (greedyTSP h' m)"
proof -
  let ?l = "\<lambda>h. greedy_loop h m (length m) (length m - 1)
                  ([0], init_visited (length m), Fin 0, [start_step])"
  from greedy_loop_host [of h m "length m" "length m - 1" "[0]" "init_visited (length m)"
      "Fin 0" "[start_step]" h' "[start_step]"]
  have eq: "map_sum id greedy_core (?l h) = map_sum id greedy_core (?l h')" .
  show ?thesis
  proof (cases "?l h")
    case (Inl e)
    with eq have "?l h' = Inl e" by (cases "?l h'") auto
    with Inl show ?thesis by (simp add: greedyTSP_def)
  next
    case (Inr st)
    with eq obtain st' where st': "?l h' = Inr st'" "greedy_core st = greedy_core st'"
      by (cases "?l h'") auto
    obtain p v t s where st: "st = (p, v, t, s)" by (cases st)
    with st' obtain s' where "st' = (p, v, t, s')"
      by (cases st') (auto simp: greedy_core_def)
    with Inr st st' show ?thesis
      by (simp add: greedyTSP_def outcome_def split: sum.splits option.splits)
  qed
qed

lemma heldKarpTSP_host:
  "map_option (map_sum id outcome) (heldKarpTSP h m)
   = map_option (map_sum id outcome) (heldKarpTSP h' m)"
  by (simp add: heldKarpTSP_def Let_def outcome_def split: option.splits)

lemma christofidesTSP_host:
  "map_sum id outcome (christofidesTSP h m) = map_sum id outcome (christofidesTSP h' m)"
  by (simp add: christofidesTSP_def Let_def outcome_def split: sum.splits)

section \<open>The number of iterations of the circuit walk\<close>

text \<open>The loop of \<open>euler_loop\<close> cut off after a given number of iterations.\<close>

fun euler_iterate :: "nat \<Rightarrow> euler_state \<Rightarrow> (error + nat list) option" where
  "euler_iterate 0 s = None"
| "euler_iterate (Suc k) (adjList, stack, circuit) =
     (if stack = [] then Some (Inr circuit)
      else case euler_step (adjList, stack, circuit) of
          Inl e \<Rightarrow> Some (Inl e)
        | Inr s' \<Rightarrow> euler_iterate k s')"

lemma euler_iterate_enough:
  "2 * edge_total adjList + length stack < k \<Longrightarrow>
   euler_iterate k (adjList, stack, circuit) = Some (euler_loop (adjList, stack, circuit))"
proof (induction k arbitrary: adjList stack circuit)
  case 0
  then show ?case by simp
next
  case (Suc k)
  show ?case
  proof (cases "stack = []")
    case True
    then show ?thesis by simp
  next
    case ne: False
    show ?thesis
    proof (cases "euler_step (adjList, stack, circuit)")
      case (Inl e)
      with ne show ?thesis by simp
    next
      case (Inr s')
      obtain adj' stack' circuit' where s': "s' = (adj', stack', circuit')"
        by (cases s') auto
      from ne have pos: "0 < length stack" by simp
      from euler_step_decreases [OF ne Inr [unfolded s']]
      have "edge_total adj' < edge_total adjList \<and> length stack' = length stack + 1
            \<or> edge_total adj' = edge_total adjList \<and> length stack' = length stack - 1"
        by auto
      with pos Suc.prems have "2 * edge_total adj' + length stack' < k"
        by arith
      from Suc.IH [OF this] Inr ne show ?thesis
        by (simp add: s')
    qed
  qed
qed

section \<open>Prim's tree spans the graph\<close>

lemma foldl_invariant:
  assumes "P a" and "\<And>a x. x \<in> set xs \<Longrightarrow> P a \<Longrightarrow> P (f a x)"
  shows "P (foldl f a xs)"
  using assms by (induction xs arbitrary: a) auto

lemma foldl_reaches:
  assumes "x \<in> set xs" and "Q a"
    and hit: "\<And>a. Q a \<Longrightarrow> R (f a x)"
    and inv: "\<And>a y. y \<in> set xs \<Longrightarrow> Q a \<Longrightarrow> Q (f a y)"
    and keep: "\<And>a y. y \<in> set xs \<Longrightarrow> Q a \<Longrightarrow> R a \<Longrightarrow> R (f a y)"
  shows "R (foldl f a xs)"
proof -
  have kept: "Q a \<Longrightarrow> R a \<Longrightarrow> set ys \<subseteq> set xs \<Longrightarrow> R (foldl f a ys)" for a ys
    by (induction ys arbitrary: a) (auto intro: inv keep)
  have "set ys \<subseteq> set xs \<Longrightarrow> x \<in> set ys \<Longrightarrow> Q a \<Longrightarrow> R (foldl f a ys)" for ys
  proof (induction ys arbitrary: a)
    case Nil
    then show ?case by simp
  next
    case (Cons y ys)
    show ?case
    proof (cases "y = x")
      case True
      with Cons.prems hit [of a] inv [of x a] kept [of "f a x" ys] show ?thesis
        by auto
    next
      case False
      with Cons.prems Cons.IH [of "f a y"] inv [of y a] show ?thesis
        by auto
    qed
  qed
  with assms(1,2) show ?thesis by blast
qed

text \<open>The candidate of Prim's scan: none yet, or an edge from a visited to an unvisited vertex.\<close>

definition prim_cand :: "bool list \<Rightarrow> nat \<Rightarrow> jsnum \<times> (nat \<times> nat) option \<Rightarrow> bool" where
  "prim_cand visited n acc \<longleftrightarrow>
     (case snd acc of
        None \<Rightarrow> fst acc = PInf
      | Some (j, k) \<Rightarrow> j < n \<and> k < n \<and> visited ! j \<and> \<not> visited ! k \<and> fst acc \<noteq> PInf)"

lemma jlt_not_PInf: "jlt x y \<Longrightarrow> x \<noteq> PInf"
  by (cases x; cases y) auto

lemma prim_pick_cand:
  assumes "prim_cand visited n acc" "j < n" "visited ! j" "k < n"
  shows "prim_cand visited n (prim_pick m visited j acc k)"
  using assms by (auto simp: prim_cand_def prim_pick_def dest: jlt_not_PInf split: option.splits)

lemma prim_row_cand:
  assumes "prim_cand visited n acc" "j < n"
  shows "prim_cand visited n (prim_row m visited n acc j)"
  unfolding prim_row_def using assms
  by (auto intro!: foldl_invariant [where P = "prim_cand visited n"] prim_pick_cand)

lemma prim_scan_cand:
  "prim_cand visited n (foldl (prim_row m visited n) (PInf, None) [0..<n])"
  by (rule foldl_invariant) (auto simp: prim_cand_def intro: prim_row_cand [unfolded prim_cand_def])

lemma prim_pick_hit:
  assumes "prim_cand visited n acc" "\<not> visited ! k" "m ! j ! k = Fin x" "k < length (m ! j)"
  shows "snd (prim_pick m visited j acc k) \<noteq> None"
  using assms
  by (cases "snd acc") (auto simp: prim_cand_def prim_pick_def col_def num_def)

lemma prim_pick_keep:
  "snd acc \<noteq> None \<Longrightarrow> snd (prim_pick m visited j acc k) \<noteq> None"
  by (auto simp: prim_pick_def)

lemma prim_row_keep:
  assumes "snd acc \<noteq> None"
  shows "snd (prim_row m visited n acc j) \<noteq> None"
proof -
  from assms have "snd (foldl (prim_pick m visited j) acc [0..<n]) \<noteq> None"
    by (rule foldl_invariant [where P = "\<lambda>a. snd a \<noteq> None"]) (rule prim_pick_keep)
  with assms show ?thesis by (simp add: prim_row_def)
qed

lemma prim_row_hit:
  assumes c: "prim_cand visited n acc" and j: "j < n" "visited ! j"
    and k: "k < n" "\<not> visited ! k" and fin: "m ! j ! k = Fin x" "k < length (m ! j)"
  shows "snd (prim_row m visited n acc j) \<noteq> None"
proof -
  have "snd (foldl (prim_pick m visited j) acc [0..<n]) \<noteq> None"
  proof (rule foldl_reaches [where x = k and Q = "prim_cand visited n"])
    show "k \<in> set [0..<n]" using k by simp
    show "prim_cand visited n acc" by fact
    show "snd (prim_pick m visited j a k) \<noteq> None" if "prim_cand visited n a" for a
      using that k(2) fin by (rule prim_pick_hit)
    show "prim_cand visited n (prim_pick m visited j a y)"
      if "y \<in> set [0..<n]" "prim_cand visited n a" for a y
      using that j by (auto intro: prim_pick_cand)
    show "snd (prim_pick m visited j a y) \<noteq> None" if "snd a \<noteq> None" for a y
      using that by (rule prim_pick_keep)
  qed
  with j show ?thesis by (simp add: prim_row_def)
qed

lemma prim_scan_hit:
  assumes fs: "finite_square m" and j: "j < length m" "visited ! j"
    and k: "k < length m" "\<not> visited ! k"
  shows "snd (foldl (prim_row m visited (length m)) (PInf, None) [0..<length m]) \<noteq> None"
proof (rule foldl_reaches [where x = j and Q = "prim_cand visited (length m)"])
  show "j \<in> set [0..<length m]" using j by simp
  show "prim_cand visited (length m) (PInf, None)" by (simp add: prim_cand_def)
  from fs j k obtain x where x: "m ! j ! k = Fin x" "k < length (m ! j)"
    by (auto simp: finite_square_def)
  show "snd (prim_row m visited (length m) a j) \<noteq> None"
    if "prim_cand visited (length m) a" for a
    using that j k x by (rule prim_row_hit)
  show "prim_cand visited (length m) (prim_row m visited (length m) a y)"
    if "y \<in> set [0..<length m]" "prim_cand visited (length m) a" for a y
    using that by (auto intro: prim_row_cand)
  show "snd (prim_row m visited (length m) a y) \<noteq> None" if "snd a \<noteq> None" for a y
    using that by (rule prim_row_keep)
qed

definition tree_edges :: "mst_edge list \<Rightarrow> (nat \<times> nat) list" where
  "tree_edges mst = map (\<lambda>(f, t, w). (f, t)) mst"

definition link :: "(nat \<times> nat) list \<Rightarrow> (nat \<times> nat) set" where
  "link es = {(a, b). (a, b) \<in> set es \<or> (b, a) \<in> set es}"

definition in_range :: "nat \<Rightarrow> (nat \<times> nat) list \<Rightarrow> bool" where
  "in_range n es \<longleftrightarrow> (\<forall>(a, b)\<in>set es. a < n \<and> b < n)"

lemma prim_loop_bounds:
  "in_range n (tree_edges mst) \<Longrightarrow> in_range n (tree_edges (snd (prim_loop m n i (visited, mst))))"
proof (induction i arbitrary: visited mst)
  case 0
  then show ?case by simp
next
  case (Suc i)
  let ?scan = "foldl (prim_row m visited n) (PInf, None) [0..<n]"
  show ?case
  proof (cases "snd ?scan")
    case None
    with Suc show ?thesis by (cases ?scan) auto
  next
    case (Some e)
    obtain j k where e: "e = (j, k)" by (cases e)
    from prim_scan_cand [of visited n m] Some e have "j < n" "k < n"
      by (auto simp: prim_cand_def)
    with Suc.prems have "in_range n (tree_edges (mst @ [(j, k, fst ?scan)]))"
      by (auto simp: in_range_def tree_edges_def)
    from Suc.IH [OF this] Some e show ?thesis
      by (cases ?scan) auto
  qed
qed

lemma primMST_bounds: "in_range (length m) (tree_edges (primMST m))"
  unfolding primMST_def Let_def
  by (rule prim_loop_bounds) (simp add: in_range_def tree_edges_def)

definition prim_inv :: "matrix \<Rightarrow> bool list \<times> mst_edge list \<Rightarrow> bool" where
  "prim_inv m st \<longleftrightarrow>
     (case st of (visited, mst) \<Rightarrow>
        length visited = length m \<and> visited ! 0
        \<and> (\<forall>v<length m. visited ! v \<longrightarrow> (0, v) \<in> (link (tree_edges mst))\<^sup>*)
        \<and> card {v. v < length m \<and> visited ! v} = length mst + 1)"

lemma link_mono: "link es \<subseteq> link (es @ [e])"
  by (auto simp: link_def)

lemma prim_step:
  assumes fs: "finite_square m" and inv: "prim_inv m (visited, mst)"
    and more: "length mst + 1 < length m"
  shows "\<exists>j k w. foldl (prim_row m visited (length m)) (PInf, None) [0..<length m] = (w, Some (j, k))
           \<and> prim_inv m (visited[k := True], mst @ [(j, k, w)])"
proof -
  let ?n = "length m"
  let ?scan = "foldl (prim_row m visited ?n) (PInf, None) [0..<?n]"
  let ?V = "{v. v < ?n \<and> visited ! v}"
  from inv have len: "length visited = ?n" and v0: "visited ! 0"
    and reach: "\<forall>v<?n. visited ! v \<longrightarrow> (0, v) \<in> (link (tree_edges mst))\<^sup>*"
    and card: "card ?V = length mst + 1"
    by (auto simp: prim_inv_def)
  have "\<exists>k<?n. \<not> visited ! k"
  proof (rule ccontr)
    assume "\<not> (\<exists>k<?n. \<not> visited ! k)"
    then have "?V = {..<?n}" by auto
    with card more show False by simp
  qed
  then obtain k0 where k0: "k0 < ?n" "\<not> visited ! k0" by blast
  from more have n0: "0 < ?n" by auto
  from prim_scan_hit [OF fs n0 v0 k0] obtain j k where jk: "snd ?scan = Some (j, k)"
    by (cases "snd ?scan") auto
  with prim_scan_cand [of visited ?n m] have b: "j < ?n" "k < ?n" "visited ! j" "\<not> visited ! k"
    by (auto simp: prim_cand_def)
  let ?mst = "mst @ [(j, k, fst ?scan)]"
  have r: "(0, v) \<in> (link (tree_edges ?mst))\<^sup>*" if "v < ?n" "visited[k := True] ! v" for v
  proof (cases "v = k")
    case True
    from reach b have "(0, j) \<in> (link (tree_edges mst))\<^sup>*" by simp
    then have "(0, j) \<in> (link (tree_edges ?mst))\<^sup>*"
      using rtrancl_mono [OF link_mono] by (auto simp: tree_edges_def)
    moreover have "(j, k) \<in> link (tree_edges ?mst)"
      by (simp add: link_def tree_edges_def)
    ultimately show ?thesis using True by (meson rtrancl.rtrancl_into_rtrancl)
  next
    case False
    with that reach have "(0, v) \<in> (link (tree_edges mst))\<^sup>*" by simp
    then show ?thesis
      using rtrancl_mono [OF link_mono] by (auto simp: tree_edges_def)
  qed
  have "{v. v < ?n \<and> visited[k := True] ! v} = insert k ?V"
    using b len by (auto simp: nth_list_update)
  moreover have "k \<notin> ?V" using b by simp
  moreover have "finite ?V" by simp
  ultimately have "card {v. v < ?n \<and> visited[k := True] ! v} = length ?mst + 1"
    using card by simp
  with r len v0 n0 b have "prim_inv m (visited[k := True], ?mst)"
    by (auto simp: prim_inv_def nth_list_update)
  with jk show ?thesis
    by (cases ?scan) auto
qed

lemma prim_loop_inv:
  assumes fs: "finite_square m"
  shows "prim_inv m (visited, mst) \<Longrightarrow> length mst + 1 + i = length m \<Longrightarrow>
         prim_inv m (prim_loop m (length m) i (visited, mst))
         \<and> length (snd (prim_loop m (length m) i (visited, mst))) = length mst + i"
proof (induction i arbitrary: visited mst)
  case 0
  then show ?case by simp
next
  case (Suc i)
  then have "length mst + 1 < length m" by simp
  from prim_step [OF fs Suc.prems(1) this] obtain j k w where
    scan: "foldl (prim_row m visited (length m)) (PInf, None) [0..<length m] = (w, Some (j, k))"
    and inv: "prim_inv m (visited[k := True], mst @ [(j, k, w)])"
    by blast
  from Suc.prems have "length (mst @ [(j, k, w)]) + 1 + i = length m" by simp
  from Suc.IH [OF inv this] scan show ?case by simp
qed

lemma primMST_spans:
  assumes fs: "finite_square m" and n: "1 \<le> length m" and v: "v < length m"
  shows "(0, v) \<in> (link (tree_edges (primMST m)))\<^sup>*"
    and "length (primMST m) = length m - 1"
proof -
  let ?n = "length m"
  let ?st = "prim_loop m ?n (?n - 1) (init_visited ?n, [])"
  from n have "{v. v < ?n \<and> init_visited ?n ! v} = {0}"
    by (auto simp: init_visited_def nth_list_update split: if_splits)
  then have "card {v. v < ?n \<and> init_visited ?n ! v} = 1"
    by simp
  moreover from n have "length (init_visited ?n) = ?n" "init_visited ?n ! 0"
    by (auto simp: init_visited_def)
  moreover from n have "\<forall>v<?n. init_visited ?n ! v \<longrightarrow> v = 0"
    by (auto simp: init_visited_def nth_list_update split: if_splits)
  ultimately have "prim_inv m (init_visited ?n, [])"
    unfolding prim_inv_def by auto
  moreover from n have "length ([] :: mst_edge list) + 1 + (?n - 1) = ?n" by simp
  ultimately have inv: "prim_inv m ?st" and l: "length (snd ?st) = ?n - 1"
    using prim_loop_inv [OF fs, of "init_visited ?n" "[]" "?n - 1"] by auto
  from l show "length (primMST m) = length m - 1"
    by (simp add: primMST_def Let_def)
  obtain visited mst where st: "?st = (visited, mst)" by (cases ?st)
  let ?V = "{v. v < ?n \<and> visited ! v}"
  from inv st l n have reach: "\<forall>v<?n. visited ! v \<longrightarrow> (0, v) \<in> (link (tree_edges mst))\<^sup>*"
    and full: "card ?V = ?n"
    by (auto simp: prim_inv_def)
  have "?V = {..<?n}"
    by (rule card_subset_eq) (use full in auto)
  with v have "visited ! v" by auto
  with reach v st show "(0, v) \<in> (link (tree_edges (primMST m)))\<^sup>*"
    by (simp add: primMST_def Let_def)
qed

section \<open>Odd vertices and their matching\<close>

text \<open>The end points of a list of edges, each edge giving two.\<close>

definition ends :: "(nat \<times> nat) list \<Rightarrow> nat list" where
  "ends es = concat (map (\<lambda>(a, b). [a, b]) es)"

lemma ends_append: "ends (es @ fs) = ends es @ ends fs"
  by (simp add: ends_def)

lemma ends_Cons: "ends ((a, b) # es) = a # b # ends es"
  by (simp add: ends_def)

lemma length_ends: "length (ends es) = 2 * length es"
  by (induction es) (auto simp: ends_def)

lemma set_ends_in_range: "in_range n es \<Longrightarrow> x \<in> set (ends es) \<Longrightarrow> x < n"
  by (auto simp: in_range_def ends_def)

lemma bump_nth:
  "i < length d \<Longrightarrow> v < length d \<Longrightarrow> bump d i ! v = d ! v + (if v = i then 1 else 0)"
  by (simp add: bump_def nth_list_update)

lemma length_bump: "length (bump d i) = length d"
  by (simp add: bump_def)

lemma degrees_fold:
  "length d = n \<Longrightarrow> in_range n (tree_edges mst) \<Longrightarrow> v < n \<Longrightarrow>
   foldl (\<lambda>degree (f, t, w). bump (bump degree f) t) d mst ! v
   = d ! v + count_list (ends (tree_edges mst)) v"
proof (induction mst arbitrary: d)
  case Nil
  then show ?case by (simp add: ends_def tree_edges_def)
next
  case (Cons e mst)
  obtain f t w where e: "e = (f, t, w)" by (cases e)
  from Cons.prems e have b: "f < n" "t < n" and r: "in_range n (tree_edges mst)"
    by (auto simp: in_range_def tree_edges_def)
  have l: "length (bump (bump d f) t) = n"
    using Cons.prems by (simp add: length_bump)
  from Cons.IH [OF l r Cons.prems(3)] b Cons.prems(1,3) show ?case
    by (simp add: e tree_edges_def ends_Cons bump_nth length_bump)
qed

lemma degrees_count:
  "in_range n (tree_edges mst) \<Longrightarrow> v < n \<Longrightarrow>
   degrees n mst ! v = count_list (ends (tree_edges mst)) v"
  unfolding degrees_def by (subst degrees_fold [where n = n]) auto

lemma sum_count_list:
  "\<forall>x\<in>set xs. x < (n::nat) \<Longrightarrow> (\<Sum>v<n. count_list xs v) = length xs"
proof (induction xs)
  case Nil
  then show ?case by simp
next
  case (Cons x xs)
  then have x: "x < n" and xs: "\<forall>x\<in>set xs. x < n" by auto
  have "(\<Sum>v<n. count_list (x # xs) v) = (\<Sum>v<n. count_list xs v + (if v = x then 1 else 0))"
    by (intro sum.cong) auto
  also have "\<dots> = (\<Sum>v<n. count_list xs v) + (\<Sum>v<n. if v = x then 1 else 0)"
    by (simp add: sum.distrib)
  also have "(\<Sum>v<n. if v = x then 1 else 0) = (1::nat)"
    using x by (simp add: sum.delta)
  finally show ?case using Cons.IH [OF xs] by simp
qed

lemma oddVertices_set:
  "set (oddVertices n degree) = {v. v < n \<and> odd (degree ! v)}"
  by (auto simp: oddVertices_def odd_iff_mod_2_eq_one)

lemma oddVertices_distinct: "distinct (oddVertices n degree)"
  by (simp add: oddVertices_def)

lemma odd_vertices_even:
  assumes "in_range n (tree_edges mst)"
  shows "even (length (oddVertices n (degrees n mst)))"
proof -
  let ?c = "\<lambda>v. count_list (ends (tree_edges mst)) v"
  from assms have "(\<Sum>v<n. ?c v) = length (ends (tree_edges mst))"
    by (intro sum_count_list) (auto dest: set_ends_in_range)
  then have "even (\<Sum>v<n. ?c v)"
    by (simp add: length_ends)
  then have "even (card {v \<in> {..<n}. odd (?c v)})"
    by (simp add: even_sum_iff)
  moreover have "{v \<in> {..<n}. odd (?c v)} = set (oddVertices n (degrees n mst))"
    using assms by (auto simp: oddVertices_set degrees_count)
  ultimately show ?thesis
    by (simp add: distinct_card oddVertices_distinct)
qed

lemma match_scan_index:
  "match_scan m vs used i js acc = Inr acc' \<Longrightarrow> snd acc' = Some b \<Longrightarrow>
   snd acc = Some b \<or> b \<in> set js"
proof (induction js arbitrary: acc)
  case Nil
  then show ?case by simp
next
  case (Cons j js)
  obtain md bm where acc: "acc = (md, bm)" by (cases acc)
  show ?case
  proof (cases "vs ! j \<in> used")
    case True
    with Cons acc show ?thesis by auto
  next
    case False
    with Cons.prems acc obtain d where d: "cell m (vs ! i) (vs ! j) = Inr d"
      by (cases "cell m (vs ! i) (vs ! j)") auto
    show ?thesis
    proof (cases "jlt (num d) md")
      case True
      with Cons.prems False acc d
      have "match_scan m vs used i js (num d, Some j) = Inr acc'" by simp
      from Cons.IH [OF this Cons.prems(2)] show ?thesis by auto
    next
      case nlt: False
      with Cons.prems False acc d
      have "match_scan m vs used i js (md, bm) = Inr acc'" by simp
      from Cons.IH [OF this Cons.prems(2)] acc show ?thesis by auto
    qed
  qed
qed

lemma match_loop_bounds:
  "match_loop m vs is (matching, used) = Inr (matching', used') \<Longrightarrow>
   set is \<subseteq> {..<length vs} \<Longrightarrow> \<forall>v\<in>set vs. v < n \<Longrightarrow> in_range n matching \<Longrightarrow>
   in_range n matching'"
proof (induction "is" arbitrary: matching used)
  case Nil
  then show ?case by simp
next
  case (Cons i "is")
  from Cons.prems have i: "i < length vs" and sub: "set is \<subseteq> {..<length vs}" by auto
  show ?case
  proof (cases "vs ! i \<in> used")
    case True
    with Cons.prems have "match_loop m vs is (matching, used) = Inr (matching', used')" by simp
    from Cons.IH [OF this sub Cons.prems(3,4)] show ?thesis .
  next
    case False
    let ?scan = "match_scan m vs used i [i + 1..<length vs] (PInf, None)"
    from Cons.prems False obtain md bm where scan: "?scan = Inr (md, bm)"
      by (cases ?scan) auto
    show ?thesis
    proof (cases bm)
      case None
      with Cons.prems False scan
      have "match_loop m vs is (matching, used) = Inr (matching', used')" by simp
      from Cons.IH [OF this sub Cons.prems(3,4)] show ?thesis .
    next
      case (Some b)
      with match_scan_index [OF scan, of b] have b: "b < length vs" by auto
      from Cons.prems False scan Some
      have l: "match_loop m vs is (matching @ [(vs ! i, vs ! b)],
                 insert (vs ! b) (insert (vs ! i) used)) = Inr (matching', used')"
        by simp
      from Cons.prems(3,4) i b have "in_range n (matching @ [(vs ! i, vs ! b)])"
        by (auto simp: in_range_def)
      from Cons.IH [OF l sub Cons.prems(3) this] show ?thesis .
    qed
  qed
qed

lemma minimumWeightMatching_bounds:
  assumes "minimumWeightMatching vs m = Inr matching" and "\<forall>v\<in>set vs. v < n"
  shows "in_range n matching"
proof -
  from assms(1) obtain used where
    "match_loop m vs [0..<length vs] ([], {}) = Inr (matching, used)"
    by (auto simp: minimumWeightMatching_def split: sum.splits)
  moreover have "set [0..<length vs] \<subseteq> {..<length vs}" by auto
  moreover note assms(2)
  moreover have "in_range n []" by (simp add: in_range_def)
  ultimately show ?thesis
    by (rule match_loop_bounds)
qed

text \<open>The candidate of the matching scan: none yet, or a partner with a finite distance.\<close>

definition match_cand :: "jsnum \<times> nat option \<Rightarrow> bool" where
  "match_cand acc \<longleftrightarrow> (snd acc = None \<longrightarrow> fst acc = PInf) \<and> (snd acc \<noteq> None \<longrightarrow> fst acc \<noteq> PInf)"

lemma match_scan_finds:
  assumes fs: "finite_square m" and i: "vs ! i < length m"
  shows "\<forall>j\<in>set js. vs ! j < length m \<Longrightarrow> match_cand acc \<Longrightarrow>
         \<exists>acc'. match_scan m vs used i js acc = Inr acc' \<and> match_cand acc'
           \<and> (snd acc' = None \<longrightarrow> snd acc = None \<and> (\<forall>j\<in>set js. vs ! j \<in> used))
           \<and> (\<forall>b. snd acc' = Some b \<longrightarrow> snd acc = Some b \<or> b \<in> set js \<and> vs ! b \<notin> used)"
proof (induction js arbitrary: acc)
  case Nil
  then show ?case by simp
next
  case (Cons j js)
  obtain md bm where acc: "acc = (md, bm)" by (cases acc)
  from Cons.prems have js: "\<forall>j\<in>set js. vs ! j < length m" and j: "vs ! j < length m" by auto
  show ?case
  proof (cases "vs ! j \<in> used")
    case True
    with Cons.IH [OF js Cons.prems(2)] acc show ?thesis by auto
  next
    case False
    from fs i j obtain x where x: "m ! (vs ! i) ! (vs ! j) = Fin x"
      by (auto simp: finite_square_def)
    from fs i j have c: "cell m (vs ! i) (vs ! j) = Inr (Some (Fin x))"
      by (simp add: finite_square_cell x)
    show ?thesis
    proof (cases "jlt (Fin x) md")
      case True
      have "match_cand (Fin x, Some j)" by (simp add: match_cand_def)
      from Cons.IH [OF js this] True False c acc show ?thesis
        by (auto simp: num_def)
    next
      case nlt: False
      then have "md \<noteq> PInf" by auto
      with Cons.prems(2) acc have "bm \<noteq> None" by (auto simp: match_cand_def)
      with Cons.IH [OF js Cons.prems(2)] nlt False c acc show ?thesis
        by (auto simp: num_def)
    qed
  qed
qed

definition match_inv :: "nat list \<Rightarrow> nat \<Rightarrow> (nat \<times> nat) list \<times> nat set \<Rightarrow> bool" where
  "match_inv vs i st \<longleftrightarrow>
     (case st of (matching, used) \<Rightarrow>
        used = set (ends matching) \<and> distinct (ends matching)
        \<and> set (ends matching) \<subseteq> set vs \<and> (\<forall>idx<i. vs ! idx \<in> used))"

lemma another_unused:
  assumes d: "distinct vs" and ev: "even (length vs)"
    and inv: "match_inv vs i (matching, used)" and i: "i < length vs" "vs ! i \<notin> used"
  shows "\<exists>j. i < j \<and> j < length vs \<and> vs ! j \<notin> used"
proof -
  from inv have u: "used = set (ends matching)" "distinct (ends matching)" "used \<subseteq> set vs"
    and low: "\<forall>idx<i. vs ! idx \<in> used"
    by (auto simp: match_inv_def)
  from u have "card used = 2 * length matching"
    by (simp add: distinct_card length_ends)
  moreover from d have "card (set vs) = length vs"
    by (rule distinct_card)
  moreover from u(3) have "card (set vs - used) = card (set vs) - card used"
    by (intro card_Diff_subset) (auto intro: finite_subset)
  ultimately have evc: "even (card (set vs - used))"
    using ev by simp
  from i have in_rest: "vs ! i \<in> set vs - used" by simp
  have "set vs - used \<noteq> {vs ! i}"
  proof
    assume "set vs - used = {vs ! i}"
    then have "card (set vs - used) = 1" by simp
    with evc show False by simp
  qed
  with in_rest obtain w where w: "w \<in> set vs" "w \<notin> used" "w \<noteq> vs ! i" by blast
  then obtain j where j: "j < length vs" "vs ! j = w"
    by (auto simp: in_set_conv_nth)
  with w low have "\<not> j < i" "j \<noteq> i" by auto
  with j w show ?thesis
    by (intro exI [of _ j]) auto
qed

lemma match_loop_perfect:
  assumes fs: "finite_square m" and b: "\<forall>v\<in>set vs. v < length m"
    and d: "distinct vs" and ev: "even (length vs)"
  shows "i \<le> length vs \<Longrightarrow> match_inv vs i (matching, used) \<Longrightarrow>
         \<exists>matching' used'. match_loop m vs [i..<length vs] (matching, used) = Inr (matching', used')
            \<and> match_inv vs (length vs) (matching', used')"
proof (induction "length vs - i" arbitrary: i matching used)
  case 0
  then show ?case by simp
next
  case (Suc k)
  then have i: "i < length vs" by simp
  then have up: "[i..<length vs] = i # [Suc i..<length vs]"
    by (simp add: upt_conv_Cons)
  from Suc.hyps(2) have k: "k = length vs - Suc i" by simp
  from i have si: "Suc i \<le> length vs" by simp
  from Suc.prems(2) have u: "used = set (ends matching)" "distinct (ends matching)"
    "set (ends matching) \<subseteq> set vs" and low: "\<forall>idx<i. vs ! idx \<in> used"
    by (auto simp: match_inv_def)
  show ?case
  proof (cases "vs ! i \<in> used")
    case True
    with Suc.prems(2) have "match_inv vs (Suc i) (matching, used)"
      by (auto simp: match_inv_def less_Suc_eq)
    from Suc.hyps(1) [OF k si this] True show ?thesis
      by (simp add: up)
  next
    case False
    from another_unused [OF d ev Suc.prems(2) i False]
    obtain j where j: "i < j" "j < length vs" "vs ! j \<notin> used" by blast
    from b i have bi: "vs ! i < length m" by simp
    have "match_cand (PInf, None)" by (simp add: match_cand_def)
    moreover from b have "\<forall>j\<in>set [i + 1..<length vs]. vs ! j < length m" by simp
    ultimately obtain acc where
      scan: "match_scan m vs used i [i + 1..<length vs] (PInf, None) = Inr acc"
      and none: "snd acc = None \<longrightarrow> (\<forall>j\<in>set [i + 1..<length vs]. vs ! j \<in> used)"
      and some: "\<forall>b. snd acc = Some b \<longrightarrow> b \<in> set [i + 1..<length vs] \<and> vs ! b \<notin> used"
      using match_scan_finds [OF fs bi, of "[i + 1..<length vs]" "(PInf, None)" used]
      by auto
    from none j obtain bm where bm: "snd acc = Some bm"
      by (cases "snd acc") auto
    with some have bmr: "i < bm" "bm < length vs" "vs ! bm \<notin> used" by auto
    with d i have ne: "vs ! i \<noteq> vs ! bm"
      by (simp add: nth_eq_iff_index_eq)
    let ?M = "matching @ [(vs ! i, vs ! bm)]"
    let ?U = "insert (vs ! bm) (insert (vs ! i) used)"
    have e: "ends ?M = ends matching @ [vs ! i, vs ! bm]"
      by (simp add: ends_append ends_Cons ends_def)
    have "?U = set (ends ?M)"
      unfolding e using u(1) by auto
    moreover have "distinct (ends ?M)"
      unfolding e using u(1,2) False bmr(3) ne by auto
    moreover have "set (ends ?M) \<subseteq> set vs"
      unfolding e using u(3) i bmr(2) by auto
    moreover have "\<forall>idx<Suc i. vs ! idx \<in> ?U"
      using low by (auto simp: less_Suc_eq)
    ultimately have "match_inv vs (Suc i) (?M, ?U)"
      unfolding match_inv_def by simp
    from Suc.hyps(1) [OF k si this] False scan bm show ?thesis
      by (cases acc) (simp add: up)
  qed
qed

lemma minimumWeightMatching_perfect:
  assumes fs: "finite_square m" and b: "\<forall>v\<in>set vs. v < length m"
    and d: "distinct vs" and ev: "even (length vs)"
  shows "\<exists>matching. minimumWeightMatching vs m = Inr matching
           \<and> distinct (ends matching) \<and> set (ends matching) = set vs"
proof -
  have "match_inv vs 0 ([], {})"
    by (simp add: match_inv_def ends_def)
  from match_loop_perfect [OF fs b d ev _ this] obtain matching used where
    l: "match_loop m vs [0..<length vs] ([], {}) = Inr (matching, used)"
    and inv: "match_inv vs (length vs) (matching, used)"
    by auto
  from inv have "set vs \<subseteq> set (ends matching)"
    by (auto simp: match_inv_def in_set_conv_nth)
  with inv l show ?thesis
    by (auto simp: minimumWeightMatching_def match_inv_def)
qed



section \<open>The multigraph and the circuit walk\<close>

lemma length_add_edge: "length (add_edge g e) = length g"
  by (cases e) (simp add: add_edge_def Let_def)

lemma add_edge_nth:
  assumes "a < length g" "b < length g" "v < length g"
  shows "add_edge g (a, b) ! v
         = g ! v @ (if v = a then [b] else []) @ (if v = b then [a] else [])"
  using assms by (auto simp: add_edge_def Let_def nth_list_update)

lemma length_foldl_add_edge: "length (foldl add_edge g es) = length g"
  by (induction es arbitrary: g) (auto simp: length_add_edge)

lemma foldl_add_edge_nth:
  "in_range (length g) es \<Longrightarrow> v < length g \<Longrightarrow>
   length (foldl add_edge g es ! v) = length (g ! v) + count_list (ends es) v
   \<and> set (foldl add_edge g es ! v) = set (g ! v) \<union> {b. (v, b) \<in> link es}"
proof (induction es arbitrary: g)
  case Nil
  then show ?case by (simp add: ends_def link_def)
next
  case (Cons e es)
  obtain a b where e: "e = (a, b)" by (cases e)
  from Cons.prems e have ab: "a < length g" "b < length g"
    and r: "in_range (length (add_edge g e)) es"
    by (auto simp: in_range_def length_add_edge)
  from Cons.prems have v: "v < length (add_edge g e)"
    by (simp add: length_add_edge)
  from Cons.IH [OF r v] add_edge_nth [OF ab Cons.prems(2)] show ?case
    by (auto simp: e ends_Cons link_def)
qed

lemma eulerianGraph_props:
  assumes "in_range n es" "in_range n fs" "v < n"
  shows "length (eulerianGraph n es fs) = n"
    and "length (eulerianGraph n es fs ! v) = count_list (ends es) v + count_list (ends fs) v"
    and "set (eulerianGraph n es fs ! v) = {b. (v, b) \<in> link es} \<union> {b. (v, b) \<in> link fs}"
proof -
  let ?g = "foldl add_edge (replicate n []) es"
  have l: "length ?g = n" by (simp add: length_foldl_add_edge)
  show "length (eulerianGraph n es fs) = n"
    by (simp add: eulerianGraph_def length_foldl_add_edge)
  from assms have 1: "length (?g ! v) = count_list (ends es) v"
    "set (?g ! v) = {b. (v, b) \<in> link es}"
    using foldl_add_edge_nth [of "replicate n []" es v] by auto
  from assms l have 2: "length (foldl add_edge ?g fs ! v) = length (?g ! v) + count_list (ends fs) v"
    "set (foldl add_edge ?g fs ! v) = set (?g ! v) \<union> {b. (v, b) \<in> link fs}"
    using foldl_add_edge_nth [of ?g fs v] by auto
  from 1 2 show "length (eulerianGraph n es fs ! v) = count_list (ends es) v + count_list (ends fs) v"
    and "set (eulerianGraph n es fs ! v) = {b. (v, b) \<in> link es} \<union> {b. (v, b) \<in> link fs}"
    by (simp_all add: eulerianGraph_def)
qed

lemma eulerianGraph_closed:
  assumes "in_range n es" "in_range n fs" "xs \<in> set (eulerianGraph n es fs)" "u \<in> set xs"
  shows "u < n"
proof -
  from assms(3) eulerianGraph_props(1) [OF assms(1,2)] obtain v where
    v: "v < n" "xs = eulerianGraph n es fs ! v"
    by (cases "n = 0") (auto simp: in_set_conv_nth eulerianGraph_def length_foldl_add_edge)
  with assms(4) eulerianGraph_props(3) [OF assms(1,2) v(1)]
  have "(v, u) \<in> link es \<or> (v, u) \<in> link fs" by auto
  with assms(1,2) show ?thesis
    by (auto simp: link_def in_range_def)
qed

text \<open>
  The walk on a graph \<open>g0\<close>: the vertices met so far are those of the stack and of the
  circuit; a vertex of the circuit has no entry left; an entry of \<open>g0\<close> is still in the
  adjacency lists or joins two vertices met.
\<close>

definition walk_inv :: "nat list list \<Rightarrow> euler_state \<Rightarrow> bool" where
  "walk_inv g0 s \<longleftrightarrow>
     (case s of (adjList, stack, circuit) \<Rightarrow>
        length adjList = length g0
        \<and> (\<forall>xs\<in>set adjList. \<forall>u\<in>set xs. u < length g0)
        \<and> (\<forall>v\<in>set stack \<union> set circuit. v < length g0)
        \<and> (\<forall>v\<in>set circuit. adjList ! v = [])
        \<and> (\<forall>a<length g0. \<forall>b\<in>set (g0 ! a).
              b \<in> set (adjList ! a)
              \<or> a \<in> set stack \<union> set circuit \<and> b \<in> set stack \<union> set circuit))"

lemma set_butlast_last: "xs \<noteq> [] \<Longrightarrow> set xs = insert (last xs) (set (butlast xs))"
  by (metis append_butlast_last_id list.simps(15) rotate1.simps(2) set_rotate1)

lemma euler_step_pop:
  assumes inv: "walk_inv g0 (adjList, stack, circuit)" and ne: "stack \<noteq> []"
    and e: "adjList ! last stack = []"
  shows "euler_step (adjList, stack, circuit) = Inr (adjList, butlast stack, circuit @ [last stack])"
    and "walk_inv g0 (adjList, butlast stack, circuit @ [last stack])"
proof -
  from inv ne have v: "last stack < length adjList"
    by (auto simp: walk_inv_def)
  with e show "euler_step (adjList, stack, circuit)
      = Inr (adjList, butlast stack, circuit @ [last stack])"
    by (simp add: euler_step_def)
  have s: "set (butlast stack) \<union> set (circuit @ [last stack]) = set stack \<union> set circuit"
    using set_butlast_last [OF ne] by auto
  from inv e show "walk_inv g0 (adjList, butlast stack, circuit @ [last stack])"
    unfolding walk_inv_def prod.case s by auto
qed

lemma euler_step_push:
  assumes inv: "walk_inv g0 (adjList, stack, circuit)" and ne: "stack \<noteq> []"
    and e: "adjList ! last stack \<noteq> []"
  defines "v \<equiv> last stack"
  defines "u \<equiv> last (adjList ! v)"
  defines "adj1 \<equiv> adjList[v := butlast (adjList ! v)]"
  defines "adj' \<equiv> adj1[u := remove1 v (adj1 ! u)]"
  shows "euler_step (adjList, stack, circuit) = Inr (adj', stack @ [u], circuit)"
    and "walk_inv g0 (adj', stack @ [u], circuit)"
proof -
  let ?n = "length g0"
  from inv have len: "length adjList = ?n"
    and cl: "\<forall>xs\<in>set adjList. \<forall>w\<in>set xs. w < ?n"
    and met: "\<forall>w\<in>set stack \<union> set circuit. w < ?n"
    and fin: "\<forall>c\<in>set circuit. adjList ! c = []"
    and edges: "\<forall>a<?n. \<forall>b\<in>set (g0 ! a). b \<in> set (adjList ! a)
        \<or> a \<in> set stack \<union> set circuit \<and> b \<in> set stack \<union> set circuit"
    by (auto simp: walk_inv_def)
  from met ne have v: "v < ?n" by (simp add: v_def)
  from e have "u \<in> set (adjList ! v)" by (simp add: u_def v_def)
  with cl v len have u: "u < ?n" using nth_mem by metis
  from v u len show step: "euler_step (adjList, stack, circuit) = Inr (adj', stack @ [u], circuit)"
    using e by (simp add: euler_step_def Let_def v_def u_def adj1_def adj'_def)
  have l': "length adj' = ?n" by (simp add: adj'_def adj1_def len)
  have nth': "adj' ! a = (if a = u then remove1 v (if u = v then butlast (adjList ! v) else adjList ! u)
                        else if a = v then butlast (adjList ! v) else adjList ! a)"
    if "a < ?n" for a
    using that u v len by (auto simp: adj'_def adj1_def nth_list_update)
  have shrink: "set (adj' ! a) \<subseteq> set (adjList ! a)" if "a < ?n" for a
    using nth' [OF that]
    by (auto dest: in_set_butlastD dest!: set_remove1_subset [THEN subsetD] split: if_splits)
  have left: "b \<in> set (adj' ! a) \<or> a = v \<and> b = u \<or> a = u \<and> b = v"
    if a: "a < ?n" and b: "b \<in> set (adjList ! a)" for a b
  proof (cases "a = v")
    case True
    with b set_butlast_last [OF e [folded v_def]]
    have "b = u \<or> b \<in> set (butlast (adjList ! v))" by (auto simp: u_def)
    with True nth' [OF a] show ?thesis by (cases "b = v") auto
  next
    case False
    with b nth' [OF a] show ?thesis by (cases "b = v") auto
  qed
  have "\<forall>xs\<in>set adj'. \<forall>w\<in>set xs. w < ?n"
  proof (intro ballI)
    fix xs w assume "xs \<in> set adj'" "w \<in> set xs"
    then obtain a where a: "a < ?n" "xs = adj' ! a"
      by (auto simp: in_set_conv_nth l')
    with \<open>w \<in> set xs\<close> shrink [OF a(1)] have "w \<in> set (adjList ! a)" by auto
    with cl a len show "w < ?n" using nth_mem by metis
  qed
  moreover from met u have "\<forall>w\<in>set (stack @ [u]) \<union> set circuit. w < ?n" by auto
  moreover have "\<forall>c\<in>set circuit. adj' ! c = []"
  proof
    fix c assume c: "c \<in> set circuit"
    with met have "c < ?n" by simp
    from shrink [OF this] fin c show "adj' ! c = []" by simp
  qed
  moreover have "\<forall>a<?n. \<forall>b\<in>set (g0 ! a). b \<in> set (adj' ! a)
        \<or> a \<in> set (stack @ [u]) \<union> set circuit \<and> b \<in> set (stack @ [u]) \<union> set circuit"
  proof (intro allI impI ballI)
    fix a b assume a: "a < ?n" and b: "b \<in> set (g0 ! a)"
    from ne have vs: "v \<in> set stack" by (simp add: v_def)
    from edges a b consider "b \<in> set (adjList ! a)"
      | "a \<in> set stack \<union> set circuit \<and> b \<in> set stack \<union> set circuit" by blast
    then show "b \<in> set (adj' ! a)
        \<or> a \<in> set (stack @ [u]) \<union> set circuit \<and> b \<in> set (stack @ [u]) \<union> set circuit"
    proof cases
      case 1
      from left [OF a 1] vs show ?thesis by auto
    next
      case 2
      then show ?thesis by auto
    qed
  qed
  ultimately show "walk_inv g0 (adj', stack @ [u], circuit)"
    unfolding walk_inv_def prod.case using l' by blast
qed

lemma euler_loop_covers:
  "walk_inv g0 (adjList, stack, circuit) \<Longrightarrow>
   \<exists>c. euler_loop (adjList, stack, circuit) = Inr c
      \<and> set stack \<union> set circuit \<subseteq> set c
      \<and> (\<forall>a\<in>set c. a < length g0 \<and> (\<forall>b\<in>set (g0 ! a). b \<in> set c))"
proof (induction "(adjList, stack, circuit)" arbitrary: adjList stack circuit rule: euler_loop.induct)
  case (1 adjList stack circuit)
  show ?case
  proof (cases "stack = []")
    case True
    with "1.prems" show ?thesis
      by (auto simp: walk_inv_def)
  next
    case ne: False
    show ?thesis
    proof (cases "adjList ! last stack = []")
      case True
      note st = euler_step_pop [OF "1.prems" ne True]
      from "1.hyps" [OF ne st(1) st(2)] obtain c where
        c: "euler_loop (adjList, butlast stack, circuit @ [last stack]) = Inr c"
        "set (butlast stack) \<union> set (circuit @ [last stack]) \<subseteq> set c"
        "\<forall>a\<in>set c. a < length g0 \<and> (\<forall>b\<in>set (g0 ! a). b \<in> set c)"
        by blast
      from c(2) set_butlast_last [OF ne] have "set stack \<union> set circuit \<subseteq> set c" by auto
      with c(1,3) st(1) ne show ?thesis by simp
    next
      case False
      note st = euler_step_push [OF "1.prems" ne False]
      from "1.hyps" [OF ne st(1) st(2)] st(1) ne show ?thesis
        by auto
    qed
  qed
qed

section \<open>The Christofides solver on a valid matrix\<close>

lemma shortcut_props:
  "distinct p \<Longrightarrow>
   distinct (shortcut c (set p, p)) \<and> set (shortcut c (set p, p)) = set p \<union> set c"
proof (induction c arbitrary: p)
  case Nil
  then show ?case by simp
next
  case (Cons v c)
  show ?case
  proof (cases "v \<in> set p")
    case True
    with Cons.IH [OF Cons.prems] show ?thesis by auto
  next
    case False
    with Cons.prems have "distinct (p @ [v])" by simp
    from Cons.IH [OF this] False show ?thesis by auto
  qed
qed

lemma cost_loop_finite:
  assumes fs: "finite_square m" and p: "\<forall>v\<in>set p. v < length m"
  shows "\<forall>i\<in>set is. i + 1 < length p \<Longrightarrow> \<exists>x. cost_loop m p is (Fin t) = Inr (Fin x)"
proof (induction "is" arbitrary: t)
  case Nil
  then show ?case by simp
next
  case (Cons i "is")
  then have "p ! i < length m" "p ! (i + 1) < length m"
    using p by auto
  with fs obtain x where "cell m (p ! i) (p ! (i + 1)) = Inr (Some (Fin x))"
    by (metis finite_square_cell finite_square_def)
  with Cons.IH [of "t + x"] Cons.prems show ?case
    by (simp add: num_def)
qed

lemma in_range_ends: "in_range n es \<longleftrightarrow> (\<forall>x\<in>set (ends es). x < n)"
  unfolding in_range_def ends_def by fastforce


text \<open>The stages of the Christofides solver on a matrix of finite entries.\<close>

lemma christofides_result:
  assumes fs: "finite_square m" and n: "1 \<le> length m"
  defines "mstEdges \<equiv> tree_edges (primMST m)"
  defines "oddVs \<equiv> oddVertices (length m) (degrees (length m) (primMST m))"
  shows "\<exists>matching circuit c.
           minimumWeightMatching oddVs m = Inr matching
           \<and> distinct (ends matching) \<and> set (ends matching) = set oddVs
           \<and> findEulerianCircuit (eulerianGraph (length m) mstEdges matching) 0 = Inr circuit
           \<and> distinct (shortcut circuit ({}, []))
           \<and> set (shortcut circuit ({}, [])) = {..<length m}
           \<and> christofidesTSP h m =
               Inr \<lparr>path = shortcut circuit ({}, []), cost = c,
                    executionTime = now1 h - now0 h,
                    steps = christofides_steps h mstEdges oddVs matching circuit
                              (shortcut circuit ({}, [])) c\<rparr>"
proof -
  let ?n = "length m"
  have rE: "in_range ?n mstEdges"
    unfolding mstEdges_def by (rule primMST_bounds)
  have od: "distinct oddVs" and ob: "\<forall>v\<in>set oddVs. v < ?n"
    by (auto simp: oddVs_def oddVertices_distinct oddVertices_set)
  have ev: "even (length oddVs)"
    unfolding oddVs_def using rE [unfolded mstEdges_def] by (rule odd_vertices_even)
  from minimumWeightMatching_perfect [OF fs ob od ev] obtain matching where
    mt: "minimumWeightMatching oddVs m = Inr matching"
    and md: "distinct (ends matching)" and ms: "set (ends matching) = set oddVs"
    by blast
  from ms ob have rM: "in_range ?n matching"
    by (simp add: in_range_ends)
  let ?g = "eulerianGraph ?n mstEdges matching"
  from n have n0: "0 < ?n" by auto
  have gl: "length ?g = ?n"
    using eulerianGraph_props(1) [OF rE rM n0] .
  have "walk_inv ?g (?g, [0], [])"
    unfolding walk_inv_def prod.case
    using n0 gl eulerianGraph_closed [OF rE rM] by auto
  from euler_loop_covers [OF this] obtain c0 where
    lp: "euler_loop (?g, [0], []) = Inr c0" and st: "0 \<in> set c0"
    and cl: "\<forall>a\<in>set c0. a < ?n \<and> (\<forall>b\<in>set (?g ! a). b \<in> set c0)"
    by (auto simp: gl)
  have cov: "v \<in> set c0" if v: "v < ?n" for v
  proof -
    from primMST_spans(1) [OF fs n v] have "(0, v) \<in> (link mstEdges)\<^sup>*"
      by (simp add: mstEdges_def)
    then show ?thesis
    proof (induction rule: rtrancl_induct)
      case base
      from st show ?case .
    next
      case (step a b)
      from step.IH cl have a: "a < ?n" by simp
      from step.hyps(2) eulerianGraph_props(3) [OF rE rM a] have "b \<in> set (?g ! a)"
        by simp
      with step.IH cl show ?case by blast
    qed
  qed
  define circuit where "circuit = rev c0"
  define p where "p = shortcut circuit ({}, [])"
  from lp have fc: "findEulerianCircuit ?g 0 = Inr circuit"
    by (simp add: findEulerianCircuit_def circuit_def)
  from shortcut_props [of "[]" circuit] have pd: "distinct p" and ps: "set p = set c0"
    by (auto simp: p_def circuit_def)
  from cov cl have "set c0 = {..<?n}" by auto
  with ps have pn: "set p = {..<?n}" by simp
  from pn n0 have "0 \<in> set p" by blast
  then have pne: "p \<noteq> []" by auto
  from pn have pb: "\<forall>v\<in>set p. v < ?n" by blast
  have "\<forall>i\<in>set [0..<length p - 1]. i + 1 < length p" by auto
  from cost_loop_finite [OF fs pb this, of 0] obtain x where
    cx: "cost_loop m p [0..<length p - 1] (Fin 0) = Inr (Fin x)"
    by blast
  from pne have "last p \<in> set p" "hd p \<in> set p" by simp_all
  with pb have "last p < ?n" "hd p < ?n" by blast+
  with fs obtain y where cy: "cell m (last p) (hd p) = Inr (Some (Fin y))"
    by (metis finite_square_cell finite_square_def)
  have "christofidesTSP h m =
      Inr \<lparr>path = p, cost = Fin (x + y), executionTime = now1 h - now0 h,
           steps = christofides_steps h mstEdges oddVs matching circuit p (Fin (x + y))\<rparr>"
    using cx cy
    unfolding christofidesTSP_def Let_def p_def
    unfolding tree_edges_def [symmetric] mstEdges_def [symmetric] oddVs_def [symmetric]
    by (simp add: mt fc num_def)
  with mt md ms fc pd pn show ?thesis
    unfolding p_def by blast
qed

section \<open>The tables of the Held-Karp solver\<close>

lemma and_bit_test: "(msk AND 2 ^ j = 0) \<longleftrightarrow> \<not> bit msk j" for msk :: nat
  by (simp add: and_exp_eq_0_iff_not_bit)

lemma bit_or_single: "bit (msk OR 2 ^ j) i \<longleftrightarrow> bit msk i \<or> i = j" for msk :: nat
  by (auto simp: bit_simps)

lemma bit_xor_single: "bit (msk XOR 2 ^ j) i \<longleftrightarrow> (bit msk i \<noteq> (i = j))" for msk :: nat
  by (auto simp: bit_simps)

lemma less_exp_bits: "msk < 2 ^ n \<longleftrightarrow> (\<forall>i. bit msk i \<longrightarrow> i < n)" for msk :: nat
proof
  assume "msk < 2 ^ n"
  then have "take_bit n msk = msk" by (simp add: take_bit_nat_eq_self_iff)
  then show "\<forall>i. bit msk i \<longrightarrow> i < n"
    by (metis bit_take_bit_iff)
next
  assume "\<forall>i. bit msk i \<longrightarrow> i < n"
  then have "take_bit n msk = msk"
    by (auto simp: bit_eq_iff bit_take_bit_iff)
  then show "msk < 2 ^ n"
    by (metis take_bit_nat_less_exp)
qed

lemma or_single_less:
  "msk < 2 ^ n \<Longrightarrow> j < n \<Longrightarrow> msk OR 2 ^ j < 2 ^ n" for msk :: nat
  unfolding less_exp_bits by (auto simp: bit_or_single)

lemma or_xor_single: "\<not> bit msk j \<Longrightarrow> (msk OR 2 ^ j) XOR 2 ^ j = msk" for msk :: nat
  by (rule bit_eqI) (auto simp: bit_xor_single bit_or_single)

lemma xor_single_less: "bit msk j \<Longrightarrow> msk XOR 2 ^ j < msk" for msk :: nat
proof -
  assume b: "bit msk j"
  have "int (msk XOR 2 ^ j) = unset_bit j (int msk)"
    using b by (intro bit_eqI) (auto simp: bit_simps)
  moreover have "unset_bit j (int msk) \<le> int msk" by (rule unset_bit_less_eq)
  moreover have "msk XOR 2 ^ j \<noteq> msk"
    using b by (metis bit_xor_single)
  ultimately show ?thesis by linarith
qed

lemma or_single_greater: "\<not> bit msk j \<Longrightarrow> msk < msk OR 2 ^ j" for msk :: nat
proof -
  assume b: "\<not> bit msk j"
  have "bit (msk OR 2 ^ j) j" unfolding bit_or_single by simp
  from xor_single_less [OF this] or_xor_single [OF b] show ?thesis by simp
qed

lemma bit_full: "bit (2 ^ n - (1::nat)) i \<longleftrightarrow> i < n"
proof -
  have "2 ^ n - (1::nat) = mask n"
    by (simp add: mask_eq_exp_minus_1)
  then show ?thesis by (simp add: bit_mask_iff)
qed

lemma bits_eq_one: "(\<And>i. bit msk i \<longleftrightarrow> i = 0) \<Longrightarrow> msk = (1::nat)"
  by (rule bit_eqI) (simp add: bit_simps)

lemma set2_nth:
  "i < length t \<Longrightarrow> j < length (t ! i) \<Longrightarrow>
   set2 t i j v ! a ! b = (if a = i \<and> b = j then v else t ! a ! b)"
  by (auto simp: set2_def nth_list_update)

lemma length_set2: "length (set2 t i j v) = length t"
  by (simp add: set2_def)

lemma length_set2_nth: "length (set2 t i j v ! a) = length (t ! a)"
  by (cases "i < length t") (auto simp: set2_def nth_list_update list_update_beyond)

text \<open>
  The tables of the sweep: an entry of \<^verbatim>\<open>dp\<close> is \<^verbatim>\<open>Infinity\<close> or finite; a finite entry
  \<open>(mask, j)\<close> has \<open>j\<close> and node 0 in its mask, and is either the base entry \<open>(1, 0)\<close>, without
  parent, or has a parent whose entry, in the mask without \<open>j\<close>, is finite too.
\<close>

definition hk_entry :: "nat \<Rightarrow> tables \<Rightarrow> nat \<Rightarrow> nat \<Rightarrow> bool" where
  "hk_entry n t msk j \<longleftrightarrow>
     (case t of (dp, parent) \<Rightarrow>
        dp ! msk ! j \<noteq> NaN
        \<and> (\<forall>x. dp ! msk ! j = Fin x \<longrightarrow>
              bit msk j \<and> bit msk 0
              \<and> (j = 0 \<longrightarrow> msk = 1 \<and> parent ! msk ! j = None)
              \<and> (j \<noteq> 0 \<longrightarrow> (\<exists>l<n. parent ! msk ! j = Some l
                                \<and> (\<exists>y. dp ! (msk XOR 2 ^ j) ! l = Fin y)))))"

definition hk_inv :: "nat \<Rightarrow> tables \<Rightarrow> bool" where
  "hk_inv n t \<longleftrightarrow>
     (case t of (dp, parent) \<Rightarrow>
        length dp = 2 ^ n \<and> length parent = 2 ^ n
        \<and> (\<forall>msk<2 ^ n. length (dp ! msk) = n \<and> length (parent ! msk) = n)
        \<and> (\<forall>msk<2 ^ n. \<forall>j<n. hk_entry n t msk j))"

lemma relax_inv:
  assumes inv: "hk_inv n t" and msk: "msk < 2 ^ n" and lst: "lst < n" and nxt: "nxt < n"
    and bl: "bit msk lst" and fin: "fst t ! msk ! lst = Fin x"
  shows "hk_inv n (relax m msk lst t nxt)"
    and "fst (relax m msk lst t nxt) ! msk ! lst = Fin x"
proof -
  obtain dp parent where t: "t = (dp, parent)" by (cases t)
  from inv t have len: "length dp = 2 ^ n" "length parent = 2 ^ n"
    and rows: "\<forall>msk<2 ^ n. length (dp ! msk) = n \<and> length (parent ! msk) = n"
    and ent: "\<forall>msk<2 ^ n. \<forall>j<n. hk_entry n (dp, parent) msk j"
    by (auto simp: hk_inv_def)
  from fin t have fin': "dp ! msk ! lst = Fin x" by simp
  let ?new = "msk OR 2 ^ nxt"
  let ?c = "jadd (dp ! msk ! lst) (num (col (m ! lst) nxt))"
  have "hk_inv n (relax m msk lst t nxt) \<and> fst (relax m msk lst t nxt) ! msk ! lst = Fin x"
  proof (cases "\<not> bit msk nxt \<and> jlt ?c (dp ! ?new ! nxt)")
    case False
    with inv fin show ?thesis
      by (auto simp: relax_def t Let_def and_bit_test)
  next
    case True
    then have nb: "\<not> bit msk nxt" and lt: "jlt ?c (dp ! ?new ! nxt)" by auto
    from lt obtain c where c: "?c = Fin c" by (cases ?c) auto
    let ?dp = "set2 dp ?new nxt (Fin c)"
    let ?parent = "set2 parent ?new nxt (Some lst)"
    from nb lt c have r: "relax m msk lst t nxt = (?dp, ?parent)"
      by (simp add: relax_def t Let_def and_bit_test)
    from msk nxt have new: "?new < 2 ^ n" by (rule or_single_less)
    from nb have ne: "?new \<noteq> msk" by (metis bit_or_single)
    from new rows len have nr: "?new < length dp" "nxt < length (dp ! ?new)"
      "?new < length parent" "nxt < length (parent ! ?new)"
      using nxt by auto
    have dpn: "?dp ! a ! b = (if a = ?new \<and> b = nxt then Fin c else dp ! a ! b)" for a b
      using nr by (simp add: set2_nth)
    have pn: "?parent ! a ! b = (if a = ?new \<and> b = nxt then Some lst else parent ! a ! b)" for a b
      using nr by (simp add: set2_nth)
    from dpn ne fin' have keep: "fst (relax m msk lst t nxt) ! msk ! lst = Fin x"
      by (simp add: r)
    from ent msk lst fin' have b0: "bit msk 0"
      by (auto simp: hk_entry_def)
    with nb have n0: "nxt \<noteq> 0" by (cases "nxt = 0") simp_all
    have still: "\<exists>y. ?dp ! a ! b = Fin y" if "dp ! a ! b = Fin y" for a b y
      using that by (simp add: dpn)
    have "hk_entry n (?dp, ?parent) a b" if a: "a < 2 ^ n" and b: "b < n" for a b
    proof (cases "a = ?new \<and> b = nxt")
      case True
      have "?new XOR 2 ^ nxt = msk" using nb by (rule or_xor_single)
      with True n0 b0 lst fin' ne show ?thesis
        unfolding hk_entry_def prod.case dpn pn by (auto simp: bit_or_single)
    next
      case False
      from ent a b have e: "hk_entry n (dp, parent) a b" by simp
      from e False have A: "?dp ! a ! b \<noteq> NaN"
        by (auto simp: hk_entry_def dpn)
      have B: "bit a b \<and> bit a 0
          \<and> (b = 0 \<longrightarrow> a = 1 \<and> ?parent ! a ! b = None)
          \<and> (b \<noteq> 0 \<longrightarrow> (\<exists>l<n. ?parent ! a ! b = Some l
                \<and> (\<exists>y. ?dp ! (a XOR 2 ^ b) ! l = Fin y)))"
        if "?dp ! a ! b = Fin y" for y
      proof -
        from that False have y: "dp ! a ! b = Fin y" by (auto simp: dpn split: if_splits)
        with e have 1: "bit a b" "bit a 0"
          by (auto simp: hk_entry_def)
        from e y False have 2: "b = 0 \<longrightarrow> a = 1 \<and> ?parent ! a ! b = None"
          by (auto simp: hk_entry_def pn)
        have 3: "\<exists>l<n. ?parent ! a ! b = Some l \<and> (\<exists>y. ?dp ! (a XOR 2 ^ b) ! l = Fin y)"
          if "b \<noteq> 0"
        proof -
          from that e y obtain l z where l: "l < n" "parent ! a ! b = Some l"
            "dp ! (a XOR 2 ^ b) ! l = Fin z"
            by (auto simp: hk_entry_def)
          from still [OF l(3)] l(1,2) False show ?thesis
            by (auto simp: pn)
        qed
        from 1 2 3 show ?thesis by blast
      qed
      from A B show ?thesis
        unfolding hk_entry_def prod.case by blast
    qed
    with len rows have "hk_inv n (relax m msk lst t nxt)"
      unfolding r hk_inv_def prod.case
      by (simp add: length_set2 length_set2_nth)
    with keep show ?thesis by simp
  qed
  then show "hk_inv n (relax m msk lst t nxt)"
    and "fst (relax m msk lst t nxt) ! msk ! lst = Fin x"
    by simp_all
qed


lemma extend_inv:
  assumes inv: "hk_inv n t" and msk: "msk < 2 ^ n" and lst: "lst < n"
  shows "hk_inv n (extend m n msk t lst)"
proof (cases "bit msk lst \<and> fst t ! msk ! lst \<noteq> PInf")
  case False
  with inv show ?thesis
    by (auto simp: extend_def and_bit_test)
next
  case True
  obtain dp parent where t: "t = (dp, parent)" by (cases t)
  from inv msk lst t have "dp ! msk ! lst \<noteq> NaN"
    by (auto simp: hk_inv_def hk_entry_def)
  with True t obtain x where x: "fst t ! msk ! lst = Fin x"
    by (cases "dp ! msk ! lst") auto
  have "hk_inv n (foldl (relax m msk lst) t [0..<n])
        \<and> fst (foldl (relax m msk lst) t [0..<n]) ! msk ! lst = Fin x"
    by (rule foldl_invariant [where P = "\<lambda>t. hk_inv n t \<and> fst t ! msk ! lst = Fin x"])
       (use inv x msk lst True in \<open>auto intro: relax_inv\<close>)
  with True show ?thesis
    by (simp add: extend_def and_bit_test)
qed

lemma sweep_inv:
  assumes "hk_inv n t"
  shows "hk_inv n (sweep m n t)"
  unfolding sweep_def
proof (rule foldl_invariant [where P = "hk_inv n"])
  show "hk_inv n t" by fact
next
  fix t' msk assume msk: "msk \<in> set [1..<push_bit n 1]" and inv: "hk_inv n t'"
  from msk have m: "msk < 2 ^ n" by (simp add: push_bit_of_1)
  show "hk_inv n (foldl (extend m n msk) t' [0..<n])"
    by (rule foldl_invariant [where P = "hk_inv n"]) (use inv m in \<open>auto intro: extend_inv\<close>)
qed

lemma init_inv:
  assumes "1 \<le> n"
  shows "hk_inv n (init_tables n)"
proof -
  from assms have one: "(1::nat) < 2 ^ n"
    by (intro one_less_power) auto
  let ?dp0 = "replicate (2 ^ n) (replicate n PInf)"
  have nth: "set2 ?dp0 1 0 (Fin 0) ! a ! b = (if a = 1 \<and> b = 0 then Fin 0 else PInf)"
    if "a < 2 ^ n" "b < n" for a b
    using that one assms by (subst set2_nth) auto
  have "hk_entry n (set2 ?dp0 1 0 (Fin 0), replicate (2 ^ n) (replicate n None)) a b"
    if "a < 2 ^ n" "b < n" for a b
    unfolding hk_entry_def prod.case nth [OF that] using that by (auto simp: bit_Suc_0_iff)
  moreover have "length (set2 ?dp0 1 0 (Fin 0) ! a) = n" if "a < 2 ^ n" for a
    using that by (simp add: length_set2_nth)
  ultimately show ?thesis
    unfolding hk_inv_def init_tables_def push_bit_of_1 prod.case
    by (simp add: length_set2)
qed

lemma reconstruct_walk:
  assumes inv: "hk_inv n (dp, parent)"
  shows "msk < 2 ^ n \<Longrightarrow> j < n \<Longrightarrow> dp ! msk ! j = Fin x \<Longrightarrow>
         \<exists>q. reconstruct parent msk (Some j) pth = Some (pth @ q)
            \<and> q \<noteq> [] \<and> distinct q \<and> set q = {i. bit msk i} \<and> last q = 0"
proof (induction msk arbitrary: j x pth rule: less_induct)
  case (less msk)
  from inv less.prems have e: "hk_entry n (dp, parent) msk j"
    by (simp add: hk_inv_def)
  with less.prems have bj: "bit msk j" and b0: "bit msk 0"
    by (auto simp: hk_entry_def)
  have unf: "reconstruct parent msk (Some j) pth
             = reconstruct parent (msk XOR 2 ^ j) (parent ! msk ! j) (pth @ [j])"
    by (subst reconstruct.simps) simp
  show ?case
  proof (cases "j = 0")
    case True
    with e less.prems have m1: "msk = 1" and pn: "parent ! msk ! j = None"
      by (auto simp: hk_entry_def)
    have stop: "reconstruct parent (msk XOR 2 ^ j) None (pth @ [j]) = Some (pth @ [j])"
      by (subst reconstruct.simps) simp
    have "reconstruct parent msk (Some j) pth = Some (pth @ [j])"
      unfolding unf pn stop ..
    moreover have "set [j] = {i. bit msk i}"
      unfolding m1 True by (auto simp: bit_Suc_0_iff)
    ultimately show ?thesis
      using True by (intro exI [of _ "[j]"]) simp
  next
    case False
    with e less.prems obtain l y where l: "l < n" "parent ! msk ! j = Some l"
      "dp ! (msk XOR 2 ^ j) ! l = Fin y"
      by (auto simp: hk_entry_def)
    from bj have lt: "msk XOR 2 ^ j < msk" by (rule xor_single_less)
    with less.prems have lt': "msk XOR 2 ^ j < 2 ^ n" by simp
    from less.IH [OF lt lt' l(1,3), of "pth @ [j]"] obtain q where
      q: "reconstruct parent (msk XOR 2 ^ j) (Some l) (pth @ [j]) = Some ((pth @ [j]) @ q)"
      "q \<noteq> []" "distinct q" "set q = {i. bit (msk XOR 2 ^ j) i}" "last q = 0"
      by blast
    have "reconstruct parent msk (Some j) pth = Some (pth @ j # q)"
      unfolding unf l(2) q(1) by simp
    moreover have "j \<notin> set q"
      unfolding q(4) using bj by (simp add: bit_xor_single)
    moreover have "set (j # q) = {i. bit msk i}"
    proof (rule set_eqI)
      fix i show "i \<in> set (j # q) \<longleftrightarrow> i \<in> {i. bit msk i}"
        unfolding set_simps q(4) using bj by (cases "i = j") (simp_all add: bit_xor_single)
    qed
    ultimately show ?thesis
      using q(2,3,5) by (intro exI [of _ "j # q"]) simp
  qed
qed

lemma jadd_Fin: "jadd a b = Fin x \<Longrightarrow> \<exists>y z. a = Fin y \<and> b = Fin z"
  by (cases a; cases b) auto

lemma jlt_Fin: "jlt a b \<Longrightarrow> \<exists>x. a = Fin x"
  by (cases a; cases b) auto

definition best_ok :: "jsnum list list \<Rightarrow> nat \<Rightarrow> nat \<Rightarrow> jsnum \<times> nat option \<Rightarrow> bool" where
  "best_ok dp fullMask n acc \<longleftrightarrow>
     (case snd acc of
        None \<Rightarrow> fst acc = PInf
      | Some i \<Rightarrow> i < n \<and> (\<exists>x y. fst acc = Fin x \<and> dp ! fullMask ! i = Fin y))"

lemma best_ending_ok: "best_ok dp (2 ^ n - 1) n (best_ending m n dp)"
  unfolding best_ending_def push_bit_of_1
proof (rule foldl_invariant [where P = "best_ok dp (2 ^ n - 1) n"])
  show "best_ok dp (2 ^ n - 1) n (PInf, None)"
    by (simp add: best_ok_def)
next
  fix acc i assume i: "i \<in> set [0..<n]" and ok: "best_ok dp (2 ^ n - 1) n acc"
  obtain minCost lastNode where acc: "acc = (minCost, lastNode)" by (cases acc)
  let ?c = "jadd (dp ! (2 ^ n - 1) ! i) (num (col (m ! i) 0))"
  show "best_ok dp (2 ^ n - 1) n (best_end m dp (2 ^ n - 1) acc i)"
  proof (cases "i \<noteq> 0 \<and> jlt ?c minCost")
    case False
    with ok acc show ?thesis
      by (auto simp: best_end_def Let_def)
  next
    case True
    then obtain x where "?c = Fin x" by (auto dest: jlt_Fin)
    moreover from this obtain y where "dp ! (2 ^ n - 1) ! i = Fin y"
      by (auto dest: jadd_Fin)
    ultimately show ?thesis
      using True i acc by (simp add: best_end_def Let_def best_ok_def)
  qed
qed

lemma heldKarpTSP_small:
  assumes "1 \<le> length m" "length m \<le> 15"
  shows "heldKarpTSP h m =
      (case reconstruct (snd (sweep m (length m) (init_tables (length m)))) (2 ^ length m - 1)
              (snd (best_ending m (length m) (fst (sweep m (length m) (init_tables (length m)))))) [] of
         None \<Rightarrow> None
       | Some p \<Rightarrow>
           Some (Inr \<lparr>path = rev p,
                      cost = fst (best_ending m (length m)
                                   (fst (sweep m (length m) (init_tables (length m))))),
                      executionTime = now1 h - now0 h,
                      steps = [init_step, sweep_step,
                               final_step h (rev p)
                                 (fst (best_ending m (length m)
                                        (fst (sweep m (length m) (init_tables (length m))))))]\<rparr>))"
proof -
  from assms(1) have "(1::nat) < 2 ^ length m"
    by (intro one_less_power) auto
  with assms(2) show ?thesis
    by (simp add: heldKarpTSP_def Let_def push_bit_of_1)
qed

text \<open>The Held-Karp solver returns on every matrix of 1 to 15 rows.\<close>

lemma heldKarp_result:
  assumes n: "1 \<le> length m" "length m \<le> 15"
  shows "\<exists>p c. heldKarpTSP h m =
            Some (Inr \<lparr>path = p, cost = c, executionTime = now1 h - now0 h,
                       steps = [init_step, sweep_step, final_step h p c]\<rparr>)
          \<and> (c = PInf \<and> p = []
              \<or> (\<exists>x. c = Fin x) \<and> distinct p \<and> set p = {0..<length m} \<and> hd p = 0)"
proof -
  let ?n = "length m"
  define t where "t = sweep m ?n (init_tables ?n)"
  define best where "best = best_ending m ?n (fst t)"
  have inv: "hk_inv ?n (fst t, snd t)"
    unfolding t_def prod.collapse by (intro sweep_inv init_inv n)
  have ok: "best_ok (fst t) (2 ^ ?n - 1) ?n best"
    unfolding best_def by (rule best_ending_ok)
  have hk: "heldKarpTSP h m =
      (case reconstruct (snd t) (2 ^ ?n - 1) (snd best) [] of
         None \<Rightarrow> None
       | Some p \<Rightarrow>
           Some (Inr \<lparr>path = rev p, cost = fst best, executionTime = now1 h - now0 h,
                      steps = [init_step, sweep_step, final_step h (rev p) (fst best)]\<rparr>))"
    unfolding best_def t_def by (rule heldKarpTSP_small [OF n])
  show ?thesis
  proof (cases "snd best")
    case None
    have "reconstruct (snd t) (2 ^ ?n - 1) None [] = Some []"
      by (subst reconstruct.simps) simp
    then have "heldKarpTSP h m =
        Some (Inr \<lparr>path = [], cost = fst best, executionTime = now1 h - now0 h,
                   steps = [init_step, sweep_step, final_step h [] (fst best)]\<rparr>)"
      unfolding hk None by simp
    moreover from None ok have "fst best = PInf"
      by (simp add: best_ok_def)
    ultimately show ?thesis by blast
  next
    case (Some i)
    with ok obtain x y where i: "i < ?n" "fst best = Fin x" "fst t ! (2 ^ ?n - 1) ! i = Fin y"
      by (auto simp: best_ok_def)
    have full: "2 ^ ?n - 1 < (2::nat) ^ ?n" by simp
    from reconstruct_walk [OF inv full i(1,3), of "[]"] obtain q where
      q: "reconstruct (snd t) (2 ^ ?n - 1) (Some i) [] = Some q" "q \<noteq> []" "distinct q"
        "set q = {i. bit ((2::nat) ^ ?n - 1) i}" "last q = 0"
      by auto
    from q(1) have "heldKarpTSP h m =
        Some (Inr \<lparr>path = rev q, cost = fst best, executionTime = now1 h - now0 h,
                   steps = [init_step, sweep_step, final_step h (rev q) (fst best)]\<rparr>)"
      unfolding hk Some by simp
    moreover have "set (rev q) = {i. bit ((2::nat) ^ ?n - 1) i}"
      by (simp only: set_rev q(4))
    then have "set (rev q) = {0..<?n}"
      by (simp only: bit_full atLeast0LessThan lessThan_def)
    moreover from q(2,5) have "hd (rev q) = 0"
      by (simp add: hd_rev)
    moreover from q(3) have "distinct (rev q)" by simp
    ultimately show ?thesis
      using i(2) by blast
  qed
qed

section \<open>Paths that are permutations\<close>

lemma christofides_path_permutation:
  assumes "square_nonneg m"
  shows "\<exists>r. christofidesTSP h m = Inr r \<and> distinct (path r) \<and> set (path r) = {0..<length m}
           \<and> length (path r) = length m"
proof -
  from assms have fs: "finite_square m" and n: "1 \<le> length m"
    by (auto simp: square_nonneg_finite_square square_nonneg_def)
  from christofides_result [OF fs n, of h] obtain r where
    r: "christofidesTSP h m = Inr r" "distinct (path r)" "set (path r) = {..<length m}"
    by force
  from r(2,3) have "length (path r) = length m"
    by (metis card_lessThan distinct_card)
  with r show ?thesis by (auto simp: lessThan_atLeast0)
qed

lemma greedy_path_permutation:
  assumes "square_nonneg m"
  shows "\<exists>r. greedyTSP h m = Inr r \<and> distinct (path r) \<and> set (path r) = {0..<length m}
           \<and> length (path r) = length m"
proof -
  from assms have fs: "finite_square m" and n: "1 \<le> length m"
    by (auto simp: square_nonneg_finite_square square_nonneg_def)
  from greedy_result [OF fs n, of h] obtain p v s where
    inv: "greedy_inv m (p, v, path_sum m p, s)" and len: "length p = length m"
    and res: "greedyTSP h m = Inr \<lparr>path = p, cost = tour_cost m p,
                 executionTime = now1 h - now0 h,
                 steps = s @ [return_step h p (m ! last p ! 0) (tour_cost m p)]\<rparr>"
    by blast
  from inv have d: "distinct p" and sub: "set p \<subseteq> {..<length m}"
    by (auto simp: greedy_inv_def)
  from d len have "card (set p) = card {..<length m}"
    by (simp add: distinct_card)
  with sub have "set p = {..<length m}"
    by (intro card_subset_eq) auto
  with res d len show ?thesis by (auto simp: lessThan_atLeast0)
qed

lemma distinct_nth_notin_take:
  assumes "distinct p" "k < length p"
  shows "p ! k \<notin> set (take k p)"
proof -
  from assms(2) have "p = take k p @ p ! k # drop (Suc k) p"
    by (rule id_take_nth_drop)
  with assms(1) have "distinct (take k p @ p ! k # drop (Suc k) p)" by simp
  then show ?thesis by simp
qed

text \<open>
  On a valid matrix the paths of the greedy and of the Christofides solver are
  permutations of \<open>0, \<dots>, n - 1\<close>. The Held-Karp solver returns on every valid matrix of at
  most 15 nodes; its path is such a permutation whenever the cost it returns is not the
  sentinel \<^verbatim>\<open>Infinity\<close>, and is empty with the sentinel.
\<close>

theorem paths_are_permutations:
  assumes "valid_matrix m"
  shows "(\<exists>r. greedyTSP h m = Inr r
            \<and> distinct (path r) \<and> set (path r) = {0..<length m} \<and> length (path r) = length m)
         \<and> (\<exists>r. christofidesTSP h m = Inr r
            \<and> distinct (path r) \<and> set (path r) = {0..<length m} \<and> length (path r) = length m)
         \<and> (length m \<le> 15 \<longrightarrow>
              (\<exists>r. heldKarpTSP h m = Some (Inr r)
                 \<and> (TSPResult.cost r \<noteq> PInf \<longrightarrow>
                       distinct (path r) \<and> set (path r) = {0..<length m}
                       \<and> length (path r) = length m)
                 \<and> (TSPResult.cost r = PInf \<longrightarrow> path r = [])))"
proof -
  from assms have sq: "square_nonneg m" by (rule valid_square_nonneg)
  then have n: "1 \<le> length m" by (simp add: square_nonneg_def)
  have hk: "\<exists>r. heldKarpTSP h m = Some (Inr r)
                 \<and> (TSPResult.cost r \<noteq> PInf \<longrightarrow>
                       distinct (path r) \<and> set (path r) = {0..<length m}
                       \<and> length (path r) = length m)
                 \<and> (TSPResult.cost r = PInf \<longrightarrow> path r = [])"
    if le: "length m \<le> 15"
  proof -
    from heldKarp_result [OF n le, of h] obtain p c where
      r: "heldKarpTSP h m =
            Some (Inr \<lparr>path = p, cost = c, executionTime = now1 h - now0 h,
                       steps = [init_step, sweep_step, final_step h p c]\<rparr>)"
      and pc: "c = PInf \<and> p = []
              \<or> (\<exists>x. c = Fin x) \<and> distinct p \<and> set p = {0..<length m} \<and> hd p = 0"
      by blast
    have "length p = length m" if "distinct p" "set p = {0..<length m}"
      using that by (metis card_atLeastLessThan diff_zero distinct_card)
    with r pc show ?thesis by auto
  qed
  from greedy_path_permutation [OF sq, of h] christofides_path_permutation [OF sq, of h] hk
  show ?thesis by blast
qed

theorem paths_are_permutations_witness:
  "valid_matrix matrix4 \<and> length matrix4 \<le> 15
   \<and> (\<exists>r. greedyTSP host0 matrix4 = Inr r
          \<and> distinct (path r) \<and> set (path r) = {0..<length matrix4}
          \<and> length (path r) = length matrix4)
   \<and> (\<exists>r. christofidesTSP host0 matrix4 = Inr r
          \<and> distinct (path r) \<and> set (path r) = {0..<length matrix4}
          \<and> length (path r) = length matrix4)
   \<and> (\<exists>r. heldKarpTSP host0 matrix4 = Some (Inr r) \<and> TSPResult.cost r \<noteq> PInf
          \<and> distinct (path r) \<and> set (path r) = {0..<length matrix4}
          \<and> length (path r) = length matrix4)"
proof -
  have v: "valid_matrix matrix4" by code_simp
  have l: "length matrix4 \<le> 15" by (simp add: matrix4_def)
  have e: "map_option (map_sum id outcome) (heldKarpTSP host0 matrix4)
           = Some (Inr ([0, 3, 1, 2], Fin 9))"
    by code_simp
  from paths_are_permutations [OF v, of host0] l obtain r where
    r: "heldKarpTSP host0 matrix4 = Some (Inr r)"
      "TSPResult.cost r \<noteq> PInf \<longrightarrow>
         distinct (path r) \<and> set (path r) = {0..<length matrix4}
         \<and> length (path r) = length matrix4"
    by blast
  from e r(1) have "TSPResult.cost r \<noteq> PInf"
    by (simp add: outcome_def)
  with r have "\<exists>r. heldKarpTSP host0 matrix4 = Some (Inr r) \<and> TSPResult.cost r \<noteq> PInf
          \<and> distinct (path r) \<and> set (path r) = {0..<length matrix4}
          \<and> length (path r) = length matrix4"
    by blast
  with v l paths_are_permutations [OF v, of host0] show ?thesis by blast
qed

section \<open>Claims\<close>

text \<open>
  Claim C1. On a valid matrix the path of every solver is a permutation of
  \<open>0, \<dots>, n - 1\<close>, for the Held-Karp solver whenever \<open>n \<le> 15\<close>. The greedy and the Christofides
  solver do so (\<open>paths_are_permutations\<close> above). The Held-Karp solver breaks the claim on the
  single-node matrix, a valid matrix with \<open>n \<le> 15\<close> whose only tour is \<open>[0]\<close>: it returns the
  empty path, since its search for the best ending node skips node 0, the only node (the
  defect of claim C7).
\<close>

theorem heldKarp_single_node_path:
  "valid_matrix [[Fin 0]] \<and> length [[Fin 0]] \<le> (15::nat)
   \<and> map_option (map_sum id path) (heldKarpTSP h [[Fin 0]]) = Some (Inr [])
   \<and> set ([]::nat list) \<noteq> {0..<length [[Fin 0]]}
   \<and> map_sum id path (greedyTSP h [[Fin 0]]) = Inr [0]
   \<and> map_sum id path (christofidesTSP h [[Fin 0]]) = Inr [0]"
  by code_simp

text \<open>
  Claim C2. For every matrix of more than 15 rows (16 in particular) the Held-Karp solver
  returns the empty path, the cost \<^verbatim>\<open>Infinity\<close> and exactly one step, the explanatory one,
  which carries neither a path nor a cost. The result is fixed by the number of rows alone:
  no entry of the matrix is read and no table is built.
\<close>

theorem heldKarp_refuses_large:
  assumes "length m > 15"
  shows "heldKarpTSP h m =
           Some (Inr \<lparr>path = [], cost = PInf, executionTime = now1 h - now0 h,
                      steps = [guard_step h (length m)]\<rparr>)
         \<and> currentPath (guard_step h (length m)) = []
         \<and> AlgorithmStep.cost (guard_step h (length m)) = None"
  using assms by (simp add: heldKarpTSP_def guard_step_def)

theorem heldKarp_refuses_large_witness:
  "length (replicate 16 (replicate 16 (Fin 0))) > 15
   \<and> heldKarpTSP host0 (replicate 16 (replicate 16 (Fin 0))) =
       Some (Inr \<lparr>path = [], cost = PInf, executionTime = 1,
                  steps = [guard_step host0 16]\<rparr>)"
  using heldKarp_refuses_large [of "replicate 16 (replicate 16 (Fin 0))" host0]
  by (simp add: host0_def)

text \<open>
  Claim C3. On a valid matrix of at most 10 nodes the Held-Karp cost is at most the greedy
  cost. The code breaks this on the single-node matrix: the greedy cost is 0 and the
  Held-Karp cost is \<^verbatim>\<open>Infinity\<close>, since its search for the best ending node skips node 0,
  the only node (the defect of claim C7).
\<close>

theorem heldKarp_above_greedy_single_node:
  "valid_matrix [[Fin 0]] \<and> length [[Fin 0]] \<le> (10::nat)
   \<and> map_option (map_sum id TSPResult.cost) (heldKarpTSP h [[Fin 0]]) = Some (Inr PInf)
   \<and> map_sum id TSPResult.cost (greedyTSP h [[Fin 0]]) = Inr (Fin 0)
   \<and> jlt (Fin 0) PInf"
  by code_simp



text \<open>
  Claim C5. For every solver and valid input, the first step is the initial snapshot and
  the last step holds the final path and a cost equal to the cost of the result. As
  stated this fails for the Held-Karp solver on more than 15 nodes, where the single step
  of the guard has no cost while the result has the cost \<^verbatim>\<open>Infinity\<close>.
\<close>

theorem last_step_cost_counterexample:
  "valid_matrix zero16
   \<and> heldKarpTSP host0 zero16 =
       Some (Inr \<lparr>path = [], cost = PInf, executionTime = 1, steps = [guard_step host0 16]\<rparr>)
   \<and> AlgorithmStep.cost (last [guard_step host0 16]) \<noteq> Some PInf"
proof -
  have "valid_matrix zero16" by code_simp
  moreover have "heldKarpTSP host0 zero16 =
       Some (Inr \<lparr>path = [], cost = PInf, executionTime = 1, steps = [guard_step host0 16]\<rparr>)"
    by (simp add: heldKarpTSP_def zero16_def host0_def)
  moreover have "AlgorithmStep.cost (last [guard_step host0 16]) \<noteq> Some PInf"
    by (simp add: guard_step_def)
  ultimately show ?thesis by blast
qed

text \<open>
  Claim C5, amended. On a valid matrix, for the greedy solver, for the Christofides
  solver, and for the Held-Karp solver when \<open>n \<le> 15\<close>: the first step is the initial snapshot
  of the solver, and the last step holds a cost equal to the cost of the result and the
  final path, which the greedy solver closes with node 0.
\<close>

theorem final_step_matches_result:
  assumes "valid_matrix m"
  shows "(\<exists>r. greedyTSP h m = Inr r \<and> steps r ! 0 = start_step
            \<and> currentPath (last (steps r)) = path r @ [0]
            \<and> AlgorithmStep.cost (last (steps r)) = Some (TSPResult.cost r))
         \<and> (\<exists>r. christofidesTSP h m = Inr r \<and> steps r ! 0 = tree_step
            \<and> currentPath (last (steps r)) = path r
            \<and> AlgorithmStep.cost (last (steps r)) = Some (TSPResult.cost r))
         \<and> (length m \<le> 15 \<longrightarrow>
              (\<exists>r. heldKarpTSP h m = Some (Inr r) \<and> steps r ! 0 = init_step
                 \<and> currentPath (last (steps r)) = path r
                 \<and> AlgorithmStep.cost (last (steps r)) = Some (TSPResult.cost r)))"
proof -
  from assms have fs: "finite_square m" and n: "1 \<le> length m"
    by (auto simp: valid_finite_square valid_matrix_def square_nonneg_def)
  from greedy_result [OF fs n, of h] obtain p v s where
    inv: "greedy_inv m (p, v, path_sum m p, s)"
    and res: "greedyTSP h m = Inr \<lparr>path = p, cost = tour_cost m p,
                 executionTime = now1 h - now0 h,
                 steps = s @ [return_step h p (m ! last p ! 0) (tour_cost m p)]\<rparr>"
    by blast
  from inv have s: "s \<noteq> []" "hd s = start_step"
    by (auto simp: greedy_inv_def)
  then have "(s @ [return_step h p (m ! last p ! 0) (tour_cost m p)]) ! 0 = start_step"
    by (simp add: nth_append hd_conv_nth)
  with res have g: "\<exists>r. greedyTSP h m = Inr r \<and> steps r ! 0 = start_step
            \<and> currentPath (last (steps r)) = path r @ [0]
            \<and> AlgorithmStep.cost (last (steps r)) = Some (TSPResult.cost r)"
    by (simp add: return_step_def)
  from christofides_result [OF fs n, of h]
  have c: "\<exists>r. christofidesTSP h m = Inr r \<and> steps r ! 0 = tree_step
            \<and> currentPath (last (steps r)) = path r
            \<and> AlgorithmStep.cost (last (steps r)) = Some (TSPResult.cost r)"
    by (auto simp: christofides_steps_def blank_step_def)
  have k: "\<exists>r. heldKarpTSP h m = Some (Inr r) \<and> steps r ! 0 = init_step
                 \<and> currentPath (last (steps r)) = path r
                 \<and> AlgorithmStep.cost (last (steps r)) = Some (TSPResult.cost r)"
    if "length m \<le> 15"
    using heldKarp_result [OF n that, of h] by (auto simp: final_step_def)
  from g c k show ?thesis by blast
qed

theorem final_step_matches_result_witness:
  "valid_matrix matrix4 \<and> length matrix4 \<le> 15
   \<and> (\<exists>r. greedyTSP host0 matrix4 = Inr r \<and> steps r ! 0 = start_step
            \<and> currentPath (last (steps r)) = path r @ [0]
            \<and> AlgorithmStep.cost (last (steps r)) = Some (TSPResult.cost r))
   \<and> (\<exists>r. christofidesTSP host0 matrix4 = Inr r \<and> steps r ! 0 = tree_step
            \<and> currentPath (last (steps r)) = path r
            \<and> AlgorithmStep.cost (last (steps r)) = Some (TSPResult.cost r))
   \<and> (\<exists>r. heldKarpTSP host0 matrix4 = Some (Inr r) \<and> steps r ! 0 = init_step
            \<and> currentPath (last (steps r)) = path r
            \<and> AlgorithmStep.cost (last (steps r)) = Some (TSPResult.cost r))"
proof -
  have v: "valid_matrix matrix4" by code_simp
  have l: "length matrix4 \<le> 15" by (simp add: matrix4_def)
  from v l final_step_matches_result [OF v, of host0] show ?thesis by blast
qed

text \<open>
  Claim C6. On a valid matrix the greedy solver returns a path over all \<open>n\<close> nodes that
  starts at node 0; every later node is chosen by the nearest-neighbour rule
  (\<open>nearest_choice\<close>: unvisited, at minimal distance from the current node, and strictly
  nearer than every unvisited node of lower index); and the returned cost is the cost of
  the tour recomputed from the matrix (\<open>tour_cost\<close>: consecutive entries plus the closing
  edge back to node 0).
\<close>

theorem greedy_nearest_neighbour:
  assumes "valid_matrix m"
  shows "\<exists>r. greedyTSP h m = Inr r \<and> length (path r) = length m \<and> path r ! 0 = 0
           \<and> (\<forall>k. k + 1 < length m \<longrightarrow> nearest_choice m (path r) k)
           \<and> TSPResult.cost r = tour_cost m (path r)"
proof -
  from assms have fs: "finite_square m" and n: "1 \<le> length m"
    by (auto simp: valid_finite_square valid_matrix_def square_nonneg_def)
  from greedy_result [OF fs n, of h] obtain p v s where
    inv: "greedy_inv m (p, v, path_sum m p, s)" and len: "length p = length m"
    and res: "greedyTSP h m = Inr \<lparr>path = p, cost = tour_cost m p,
                 executionTime = now1 h - now0 h,
                 steps = s @ [return_step h p (m ! last p ! 0) (tour_cost m p)]\<rparr>"
    by blast
  from inv have "p ! 0 = 0" "\<forall>k. k + 1 < length p \<longrightarrow> nearest_choice m p k"
    by (auto simp: greedy_inv_def hd_conv_nth)
  with res len show ?thesis by simp
qed

theorem greedy_nearest_neighbour_witness:
  "valid_matrix matrix4
   \<and> (\<exists>r. greedyTSP host0 matrix4 = Inr r \<and> length (path r) = length matrix4 \<and> path r ! 0 = 0
           \<and> (\<forall>k. k + 1 < length matrix4 \<longrightarrow> nearest_choice matrix4 (path r) k)
           \<and> TSPResult.cost r = tour_cost matrix4 (path r))"
proof -
  have v: "valid_matrix matrix4" by code_simp
  from v greedy_nearest_neighbour [OF v, of host0] show ?thesis by blast
qed

text \<open>
  Claim C7. On the single-node matrix the greedy solver and the Christofides solver
  return the path \<open>[0]\<close> and the cost 0. The Held-Karp solver does not: its search for the
  best ending node skips node 0, the only node, so it returns the empty path and the cost
  \<^verbatim>\<open>Infinity\<close>.
\<close>

theorem single_node_results:
  "map_sum id outcome (greedyTSP h [[Fin 0]]) = Inr ([0], Fin 0)
   \<and> map_sum id outcome (christofidesTSP h [[Fin 0]]) = Inr ([0], Fin 0)
   \<and> map_option (map_sum id outcome) (heldKarpTSP h [[Fin 0]]) = Some (Inr ([], PInf))"
  by code_simp

text \<open>
  Claim C8. Each solver is deterministic in its path and cost: two runs on the same
  matrix differ at most in what they take from the host (the clock readings, and with
  them the execution time), and the path and the cost, or the error, do not depend on
  the host.
\<close>

theorem solvers_deterministic:
  "map_sum id outcome (greedyTSP h m) = map_sum id outcome (greedyTSP h' m)
   \<and> map_option (map_sum id outcome) (heldKarpTSP h m)
       = map_option (map_sum id outcome) (heldKarpTSP h' m)
   \<and> map_sum id outcome (christofidesTSP h m) = map_sum id outcome (christofidesTSP h' m)"
  using greedyTSP_host heldKarpTSP_host christofidesTSP_host by blast

text \<open>
  Claim C9. The circuit walk terminates on every adjacency list. An iteration that does
  not throw either removes an entry from the adjacency lists or leaves them unchanged and
  pops the stack, so the pair (number of adjacency entries, length of the stack) decreases
  in the lexicographic order; \<open>euler_loop\<close> is defined by recursion along that order.
  The loop is over after at most \<open>2 * entries + length of the stack\<close> iterations.
\<close>

theorem findEulerianCircuit_terminates:
  assumes "stack \<noteq> []"
    and "euler_step (adjList, stack, circuit) = Inr (adj', stack', circuit')"
  shows "(edge_total adj' < edge_total adjList
            \<or> adj' = adjList \<and> length stack' < length stack)
         \<and> (euler_measure (adj', stack', circuit'), euler_measure (adjList, stack, circuit))
             \<in> less_than <*lex*> less_than
         \<and> euler_iterate (2 * edge_total adjList + length stack + 1) (adjList, stack, circuit)
             = Some (euler_loop (adjList, stack, circuit))"
proof -
  from assms(1) have "length (butlast stack) < length stack" by simp
  with euler_step_decreases [OF assms]
  have d: "edge_total adj' < edge_total adjList
           \<or> adj' = adjList \<and> length stack' < length stack"
    by auto
  then have "(euler_measure (adj', stack', circuit'), euler_measure (adjList, stack, circuit))
             \<in> less_than <*lex*> less_than"
    by (auto simp: euler_measure_def)
  moreover have "euler_iterate (2 * edge_total adjList + length stack + 1)
      (adjList, stack, circuit) = Some (euler_loop (adjList, stack, circuit))"
    by (rule euler_iterate_enough) simp
  ultimately show ?thesis
    using d by blast
qed

theorem findEulerianCircuit_terminates_witness:
  "[0::nat] \<noteq> []
   \<and> euler_step ([[1], [0]], [0], []) = Inr ([[], []], [0, 1], [])
   \<and> (edge_total [[], []] < edge_total [[1], [0]]
        \<or> [[], []] = [[1], [0::nat]] \<and> length [0::nat, 1] < length [0::nat])
   \<and> (euler_measure ([[], []], [0, 1], []), euler_measure ([[1], [0]], [0], []))
       \<in> less_than <*lex*> less_than
   \<and> euler_iterate (2 * edge_total [[1], [0]] + length [0::nat] + 1) ([[1], [0]], [0], [])
       = Some (euler_loop ([[1], [0]], [0], []))"
proof -
  have s: "euler_step ([[1], [0]], [0], []) = Inr ([[], []], [0, 1], [])"
    by (simp add: euler_step_def)
  from findEulerianCircuit_terminates [OF _ s] s show ?thesis
    by blast
qed

text \<open>
  Claim C10. On a square matrix of non-negative reals with \<open>n \<ge> 1\<close> the greedy solver
  returns without a \<open>TypeError\<close>, so the row of every lookup exists and the closing entry is
  defined. At each of the \<open>n - 1\<close> iterations the scan, started on the nodes visited so far,
  finds a node (never \<^verbatim>\<open>-1\<close>), which is below \<open>n\<close> and was not visited before; so two steps
  are logged per iteration, the path has no repeated node, holds every node below \<open>n\<close>, the
  only indices of a lookup, and has length exactly \<open>n\<close>.
\<close>

theorem greedy_never_stuck:
  assumes "square_nonneg m"
  shows "\<exists>r. greedyTSP h m = Inr r \<and> length (path r) = length m
           \<and> distinct (path r) \<and> set (path r) = {0..<length m}
           \<and> length (steps r) = 2 * length m
           \<and> (\<forall>i. i + 1 < length m \<longrightarrow>
                 path r ! (i + 1) < length m
                 \<and> path r ! (i + 1) \<notin> set (take (i + 1) (path r))
                 \<and> (\<exists>d. nearest_scan m (visited_of (length m) (take (i + 1) (path r))) (path r ! i)
                        [0..<length m] (None, PInf) = Inr (Some (path r ! (i + 1)), d)))"
proof -
  from assms have fs: "finite_square m" and n: "1 \<le> length m"
    by (auto simp: square_nonneg_finite_square square_nonneg_def)
  from greedy_result [OF fs n, of h] obtain p v s where
    loop: "greedy_loop h m (length m) (length m - 1)
             ([0], init_visited (length m), Fin 0, [start_step]) = Inr (p, v, path_sum m p, s)"
    and inv: "greedy_inv m (p, v, path_sum m p, s)" and len: "length p = length m"
    and ls: "length s = 2 * length m - 1"
    and res: "greedyTSP h m = Inr \<lparr>path = p, cost = tour_cost m p,
                 executionTime = now1 h - now0 h,
                 steps = s @ [return_step h p (m ! last p ! 0) (tour_cost m p)]\<rparr>"
    by blast
  from n have l: "length [0::nat] + (length m - 1) = length m" by simp
  from greedy_loop_scans [OF fs greedy_inv_init [OF n] l loop]
  have sc: "\<forall>i. i + 1 < length m \<longrightarrow>
       (\<exists>d. nearest_scan m (visited_of (length m) (take (i + 1) p)) (p ! i) [0..<length m]
              (None, PInf) = Inr (Some (p ! (i + 1)), d))"
    by simp
  from inv have d: "distinct p" and sub: "set p \<subseteq> {..<length m}"
    by (auto simp: greedy_inv_def)
  from d len have "card (set p) = card {..<length m}"
    by (simp add: distinct_card)
  with sub have "set p = {..<length m}"
    by (intro card_subset_eq) auto
  then have full: "set p = {0..<length m}" by (simp add: lessThan_atLeast0)
  have fresh: "p ! (i + 1) < length m \<and> p ! (i + 1) \<notin> set (take (i + 1) p)"
    if i: "i + 1 < length m" for i
  proof -
    from i len have "p ! (i + 1) \<in> set p" by (intro nth_mem) simp
    with sub have "p ! (i + 1) < length m" by blast
    moreover from i len d have "p ! (i + 1) \<notin> set (take (i + 1) p)"
      by (intro distinct_nth_notin_take) simp_all
    ultimately show ?thesis ..
  qed
  from res len ls n sc d full fresh show ?thesis by simp
qed

theorem greedy_never_stuck_witness:
  "square_nonneg matrix4
   \<and> (\<exists>r. greedyTSP host0 matrix4 = Inr r \<and> length (path r) = length matrix4
           \<and> distinct (path r) \<and> set (path r) = {0..<length matrix4}
           \<and> length (steps r) = 2 * length matrix4
           \<and> (\<forall>i. i + 1 < length matrix4 \<longrightarrow>
                 path r ! (i + 1) < length matrix4
                 \<and> path r ! (i + 1) \<notin> set (take (i + 1) (path r))
                 \<and> (\<exists>d. nearest_scan matrix4 (visited_of (length matrix4) (take (i + 1) (path r)))
                        (path r ! i) [0..<length matrix4] (None, PInf)
                      = Inr (Some (path r ! (i + 1)), d))))"
proof -
  have v: "square_nonneg matrix4" by code_simp
  from v greedy_never_stuck [OF v, of host0] show ?thesis by blast
qed

end
